theory Spec2Isabelle
  imports Main
begin

section \<open>Syntax trees and Method objects\<close>

text \<open>
  The module \<^verbatim>\<open>vcs/traverse.py\<close> walks Python syntax trees produced by the standard
  parser. Only three kinds of node are told apart by \<^verbatim>\<open>ASTMethodExtractor\<close>: a module
  (its list of statements), \<^verbatim>\<open>ClassDef\<close> and \<^verbatim>\<open>FunctionDef\<close>. Every other node is handled
  by \<^verbatim>\<open>ast.NodeVisitor.generic_visit\<close>, which visits the children and returns \<^verbatim>\<open>None\<close>;
  expressions hold no statements, so such a node is kept with its child statements only.

  A \<^verbatim>\<open>FunctionDef\<close> node carries its name and the position attributes that
  \<^verbatim>\<open>ast.get_source_segment\<close> reads: 1-based line numbers and UTF-8 byte offsets into
  the line. The end attributes are optional in the \<^verbatim>\<open>ast\<close> grammar.
\<close>

record node =
  node_name :: string
  lineno :: int
  col_offset :: int
  end_lineno :: "int option"
  end_col_offset :: "int option"

datatype stmt =
    FunctionDef node "stmt list"
  | ClassDef string "stmt list"
  | OtherStmt "stmt list"

text \<open>
  Source text is a \<^typ>\<open>string\<close>, read as the bytes of an ASCII text: for such a text
  \<^verbatim>\<open>encode()\<close> and \<^verbatim>\<open>decode()\<close> change nothing and byte offsets are character offsets.
\<close>

definition isspace :: "char \<Rightarrow> bool" where
  "isspace c \<longleftrightarrow> c \<in> set [CHR 0x09, CHR 0x0A, CHR 0x0B, CHR 0x0C, CHR 0x0D,
     CHR 0x1C, CHR 0x1D, CHR 0x1E, CHR 0x1F, CHR 0x20]"

definition strip :: "string \<Rightarrow> string" where
  "strip s = rev (dropWhile isspace (rev (dropWhile isspace s)))"

text \<open>
  \<^verbatim>\<open>class Method\<close>: the constructor stores the path as it is given (it may be absent),
  the stripped text of the whole file, and the
  bare name both as \<^verbatim>\<open>name\<close> and as \<^verbatim>\<open>full_name\<close>. \<^verbatim>\<open>extend_path\<close> rewrites
  \<^verbatim>\<open>full_name\<close> in place, with the default separator.
\<close>

record Method =
  file_path :: "string option"
  ast :: node
  src :: string
  name :: string
  full_name :: string

definition Method_init :: "string option \<Rightarrow> string \<Rightarrow> node \<Rightarrow> string \<Rightarrow> Method" where
  "Method_init path nm nd source =
     \<lparr>file_path = path, ast = nd, src = strip source, name = nm, full_name = nm\<rparr>"

definition extend_path :: "string \<Rightarrow> Method \<Rightarrow> Method" where
  "extend_path prefix m = m\<lparr>full_name := prefix @ ''.'' @ full_name m\<rparr>"

text \<open>
  Method objects are mutable and are compared by identity (the class defines neither
  \<^verbatim>\<open>__eq__\<close> nor \<^verbatim>\<open>__hash__\<close>), so they live in a store: an object is the index of its
  cell, and a new object takes the next free cell.
\<close>

type_synonym ref = nat
type_synonym heap = "Method list"

definition truthy :: "'a list option \<Rightarrow> bool" where
  "truthy r = (case r of None \<Rightarrow> False | Some xs \<Rightarrow> xs \<noteq> [])"

fun extend_all :: "string \<Rightarrow> ref list \<Rightarrow> heap \<Rightarrow> heap" where
  "extend_all prefix [] h = h"
| "extend_all prefix (r # rs) h = extend_all prefix rs (h[r := extend_path prefix (h ! r)])"

text \<open>
  \<^verbatim>\<open>ASTMethodExtractor\<close> with its fields \<^verbatim>\<open>file_path\<close> and \<^verbatim>\<open>src\<close>. \<open>visit\<close> dispatches on
  the node class; \<open>visit_body\<close> is the loop shared by \<^verbatim>\<open>visit_Module\<close> and
  \<^verbatim>\<open>visit_ClassDef\<close>, with the list \<^verbatim>\<open>methods\<close> as accumulator; \<open>generic_visit\<close> visits the
  children and drops what they return.
\<close>

fun visit :: "string option \<Rightarrow> string \<Rightarrow> stmt \<Rightarrow> heap \<Rightarrow> ref list option \<times> heap"
  and visit_body ::
    "string option \<Rightarrow> string \<Rightarrow> stmt list \<Rightarrow> ref list \<Rightarrow> heap \<Rightarrow> ref list \<times> heap"
  and generic_visit :: "string option \<Rightarrow> string \<Rightarrow> stmt list \<Rightarrow> heap \<Rightarrow> heap"
where
  "visit path source (FunctionDef nd body) h =
     (Some [length h], h @ [Method_init path (node_name nd) nd source])"
| "visit path source (ClassDef cname body) h =
     (case visit_body path source body [] h of
        (methods, h') \<Rightarrow> (Some methods, extend_all cname methods h'))"
| "visit path source (OtherStmt children) h = (None, generic_visit path source children h)"
| "visit_body path source [] methods h = (methods, h)"
| "visit_body path source (st # rest) methods h =
     (case visit path source st h of
        (result, h') \<Rightarrow>
          visit_body path source rest
            (if truthy result then methods @ the result else methods) h')"
| "generic_visit path source [] h = h"
| "generic_visit path source (c # cs) h =
     generic_visit path source cs (snd (visit path source c h))"

definition visit_Module ::
  "string option \<Rightarrow> string \<Rightarrow> stmt list \<Rightarrow> heap \<Rightarrow> ref list \<times> heap" where
  "visit_Module path source body h = visit_body path source body [] h"


subsection \<open>Python strings, indexing and slices\<close>

definition endswith :: "string \<Rightarrow> string \<Rightarrow> bool" where
  "endswith s suffix \<longleftrightarrow>
     length suffix \<le> length s \<and> drop (length s - length suffix) s = suffix"

text \<open>\<^verbatim>\<open>msg.replace('\n', '; ')\<close>\<close>

definition replace_newlines :: "string \<Rightarrow> string" where
  "replace_newlines s = concat (map (\<lambda>c. if c = CHR 0x0A then ''; '' else [c]) s)"

datatype exn = IndexError | TypeError | AttributeError | SyntaxError | OSError | BuilderError

definition py_index :: "'a list \<Rightarrow> int \<Rightarrow> exn + 'a" where
  "py_index xs i =
     (let n = int (length xs); j = (if i < 0 then i + n else i)
      in if 0 \<le> j \<and> j < n then Inr (xs ! nat j) else Inl IndexError)"

definition slice_bound :: "nat \<Rightarrow> int \<Rightarrow> nat" where
  "slice_bound n i = (if i < 0 then nat (max 0 (i + int n)) else min n (nat i))"

definition py_slice :: "'a list \<Rightarrow> int option \<Rightarrow> int option \<Rightarrow> 'a list" where
  "py_slice xs lo hi =
     (let n = length xs;
          a = (case lo of None \<Rightarrow> 0 | Some i \<Rightarrow> slice_bound n i);
          b = (case hi of None \<Rightarrow> n | Some j \<Rightarrow> slice_bound n j)
      in take (b - a) (drop a xs))"

text \<open>
  \<^verbatim>\<open>ast._splitlines_no_ff\<close>: lines are cut after \<^verbatim>\<open>\n\<close>, \<^verbatim>\<open>\r\<close> and \<^verbatim>\<open>\r\n\<close>, the line
  end is kept, and a form feed cuts nothing. The second argument is \<^verbatim>\<open>next_line\<close>.
\<close>

fun splitlines_loop :: "string \<Rightarrow> string \<Rightarrow> string list" where
  "splitlines_loop [] next_line = (if next_line \<noteq> [] then [next_line] else [])"
| "splitlines_loop [c] next_line = [next_line @ [c]]"
| "splitlines_loop (c # d # cs) next_line =
     (if c = CHR 0x0D \<and> d = CHR 0x0A then (next_line @ [c, d]) # splitlines_loop cs []
      else if c = CHR 0x0D \<or> c = CHR 0x0A then (next_line @ [c]) # splitlines_loop (d # cs) []
      else splitlines_loop (d # cs) (next_line @ [c]))"

definition splitlines_no_ff :: "string \<Rightarrow> string list" where
  "splitlines_no_ff source = splitlines_loop source []"

text \<open>
  \<^verbatim>\<open>ast.get_source_segment(source, node)\<close> with \<^verbatim>\<open>padded=False\<close>. It returns \<^verbatim>\<open>None\<close> when
  an end position is missing; indexing the list of lines out of range raises.
\<close>

definition get_source_segment :: "string \<Rightarrow> node \<Rightarrow> exn + string option" where
  "get_source_segment source nd =
     (case (end_lineno nd, end_col_offset nd) of
        (Some el, Some ec) \<Rightarrow>
          (let ln = lineno nd - 1; eln = el - 1; co = col_offset nd;
               lines = splitlines_no_ff source
           in if eln = ln then
                (case py_index lines ln of
                   Inl e \<Rightarrow> Inl e
                 | Inr l \<Rightarrow> Inr (Some (py_slice l (Some co) (Some ec))))
              else
                (case py_index lines ln of
                   Inl e \<Rightarrow> Inl e
                 | Inr l1 \<Rightarrow>
                     (case py_index lines eln of
                        Inl e \<Rightarrow> Inl e
                      | Inr l2 \<Rightarrow>
                          Inr (Some (concat
                            (py_slice l1 (Some co) None
                             # py_slice lines (Some (ln + 1)) (Some eln)
                             @ [py_slice l2 None (Some ec)]))))))
      | _ \<Rightarrow> Inr None)"

section \<open>Commits, collaborators and the observable state\<close>

datatype modification_type = ADD | COPY | RENAME | DELETE | MODIFY | UNKNOWN

text \<open>
  The dictionary built for one modification. The mining collaborator leaves a path or a
  text absent (\<^verbatim>\<open>None\<close>) where the file does not exist on that side.
\<close>

record modification =
  mtype :: modification_type
  old_src :: "string option"
  old_path :: "string option"
  new_src :: "string option"
  new_path :: "string option"

record repo =
  r_name :: string
  r_path :: string
  r_url :: string

record commit =
  num :: nat
  hash :: string
  msg :: string
  modifications :: "modification list"
  repo :: repo

record RepoInfo =
  repo_name :: string
  repo_path :: string
  repo_url :: string
  commit_hash :: string
  old_method :: ref
  new_method :: ref

text \<open>What the mining collaborator yields for one commit of the history.\<close>

record mined_modification =
  change_type :: modification_type
  source_code_before :: "string option"
  mined_old_path :: "string option"
  source_code :: "string option"
  mined_new_path :: "string option"

record mined_commit =
  mined_hash :: string
  mined_msg :: string
  parents :: "string list"
  mined_modifications :: "mined_modification list"

text \<open>
  The collaborators are parameters: the parser \<^verbatim>\<open>ast.parse\<close>, the graph builder
  \<^verbatim>\<open>changegraph.build_from_files\<close> (given the two texts written to the temporary files
  and the \<^verbatim>\<open>RepoInfo\<close>), the write of one pickle file, and the setting
  \<^verbatim>\<open>store_interval\<close>. Each of the first three either returns or raises.
\<close>

record 'g env =
  ast_parse :: "string \<Rightarrow> exn + stmt list"
  build_from_files :: "string \<Rightarrow> string \<Rightarrow> RepoInfo \<Rightarrow> exn + 'g"
  pickle_dump :: "'g list \<Rightarrow> exn option"
  STORE_INTERVAL :: int

datatype level = INFO | WARNING | ERROR

datatype message =
    LookingAtCommit string string
  | UnableToCompile
  | UnableToExtractSegment node
  | UnableToBuild string string string int
  | StoringGraphs
  | StoringFinished

text \<open>
  What a run does that can be seen from outside: the log lines, the calls of the parser
  and of the builder (in \<open>events\<close>, oldest first) and the pickle files written (in
  \<open>storage\<close>). \<open>change_graphs\<close> is the local list of the running task.
\<close>

datatype event =
    Log level message
  | ParseCall "string option"
  | BuildCall string string RepoInfo

record 'g state =
  heap :: heap
  events :: "event list"
  change_graphs :: "'g list"
  storage :: "'g list list"

definition log :: "level \<Rightarrow> message \<Rightarrow> 'g state \<Rightarrow> 'g state" where
  "log lvl m s = s\<lparr>events := events s @ [Log lvl m]\<rparr>"


section \<open>The pipeline of \<^verbatim>\<open>GitAnalyzer\<close>\<close>

text \<open>
  \<^verbatim>\<open>_extract_commits\<close>: the loop over the mined history, with the list \<^verbatim>\<open>commits\<close> as
  accumulator. The path and the remote address of the repository come from outside.
\<close>

definition cut_modification :: "mined_modification \<Rightarrow> modification" where
  "cut_modification m =
     \<lparr>mtype = change_type m, old_src = source_code_before m, old_path = mined_old_path m,
      new_src = source_code m, new_path = mined_new_path m\<rparr>"

fun extract_commits_loop :: "repo \<Rightarrow> mined_commit list \<Rightarrow> commit list \<Rightarrow> commit list" where
  "extract_commits_loop r [] commits = commits"
| "extract_commits_loop r (c # rest) commits =
     (if parents c = [] then extract_commits_loop r rest commits
      else extract_commits_loop r rest
             (commits @ [\<lparr>num = length commits + 1, hash = mined_hash c, msg = mined_msg c,
                modifications = map cut_modification (mined_modifications c), repo = r\<rparr>]))"

definition extract_commits ::
  "string \<Rightarrow> string \<Rightarrow> string \<Rightarrow> mined_commit list \<Rightarrow> commit list" where
  "extract_commits nm pth url history =
     extract_commits_loop \<lparr>r_name = nm, r_path = pth, r_url = url\<rparr> history []"

text \<open>
  \<^verbatim>\<open>_store_change_graphs\<close>: a log line, the write of the file, a second log line. A failed
  write raises after the first line.
\<close>

definition store_change_graphs :: "'g env \<Rightarrow> 'g list \<Rightarrow> 'g state \<Rightarrow> exn option \<times> 'g state" where
  "store_change_graphs env graphs s =
     (let s1 = log INFO StoringGraphs s in
      case pickle_dump env graphs of
        Some e \<Rightarrow> (Some e, s1)
      | None \<Rightarrow> (None, log INFO StoringFinished (s1\<lparr>storage := storage s1 @ [graphs]\<rparr>)))"

text \<open>
  \<^verbatim>\<open>_extract_methods\<close>: every exception of the parser is caught, also the one it raises
  for an absent text. The visit of a parsed tree stands outside the \<^verbatim>\<open>try\<close>; it is taken
  to return, and what is proved about a whole task is stated for a task that returns.
\<close>

definition extract_methods ::
  "'g env \<Rightarrow> string option \<Rightarrow> string option \<Rightarrow> 'g state \<Rightarrow> ref list \<times> 'g state" where
  "extract_methods env path source s =
     (let s1 = s\<lparr>events := events s @ [ParseCall source]\<rparr> in
      case (case source of None \<Rightarrow> Inl TypeError | Some text \<Rightarrow> ast_parse env text) of
        Inl e \<Rightarrow> ([], log INFO UnableToCompile s1)
      | Inr body \<Rightarrow>
          (case visit_Module path (the source) body (heap s1) of
             (methods, h') \<Rightarrow> (methods, s1\<lparr>heap := h'\<rparr>)))"

text \<open>
  \<^verbatim>\<open>_get_methods_mapping\<close>. The dictionary is keyed by the Method objects themselves and
  keeps the order of first insertion; assigning to a key that is present replaces its
  value in place.
\<close>

fun dict_set :: "('k \<times> 'v) list \<Rightarrow> 'k \<Rightarrow> 'v \<Rightarrow> ('k \<times> 'v) list" where
  "dict_set [] k v = [(k, v)]"
| "dict_set ((k', v') # d) k v =
     (if k' = k then (k', v) # d else (k', v') # dict_set d k v)"

fun mapping_inner :: "heap \<Rightarrow> ref \<Rightarrow> ref list \<Rightarrow> (ref \<times> ref) list \<Rightarrow> (ref \<times> ref) list" where
  "mapping_inner h old_m [] d = d"
| "mapping_inner h old_m (new_m # rest) d =
     mapping_inner h old_m rest
       (if full_name (h ! old_m) = full_name (h ! new_m) then dict_set d old_m new_m else d)"

fun mapping_outer :: "heap \<Rightarrow> ref list \<Rightarrow> ref list \<Rightarrow> (ref \<times> ref) list \<Rightarrow> (ref \<times> ref) list" where
  "mapping_outer h [] new_methods d = d"
| "mapping_outer h (old_m # rest) new_methods d =
     mapping_outer h rest new_methods (mapping_inner h old_m new_methods d)"

definition get_methods_mapping :: "heap \<Rightarrow> ref list \<Rightarrow> ref list \<Rightarrow> (ref \<times> ref) list" where
  "get_methods_mapping h old_methods new_methods = mapping_outer h old_methods new_methods []"

text \<open>\<^verbatim>\<open>Method.get_source\<close>: any exception becomes a log line and \<^verbatim>\<open>None\<close>.\<close>

definition get_source :: "Method \<Rightarrow> 'g state \<Rightarrow> string option \<times> 'g state" where
  "get_source m s =
     (case get_source_segment (src m) (ast m) of
        Inl e \<Rightarrow> (None, log INFO (UnableToExtractSegment (ast m)) s)
      | Inr r \<Rightarrow> (r, s))"

text \<open>
  The block under \<^verbatim>\<open>with tempfile.NamedTemporaryFile ...\<close>: the two texts are written to
  the temporary files, the builder is called on them, and its graph is appended and the
  list flushed at the threshold. Whatever the builder raises is caught and logged. The
  result says whether an exception leaves the block (\<open>Some\<close>) or not (\<open>None\<close>).
\<close>

definition build_pair ::
  "'g env \<Rightarrow> commit \<Rightarrow> ref \<times> ref \<Rightarrow> string \<Rightarrow> string \<Rightarrow> 'g state \<Rightarrow> exn option \<times> 'g state" where
  "build_pair env c p old_method_src new_method_src s =
     (let repo_info = \<lparr>repo_name = r_name (repo c), repo_path = r_path (repo c),
            repo_url = r_url (repo c), commit_hash = hash c,
            old_method = fst p, new_method = snd p\<rparr>;
          s1 = s\<lparr>events := events s @ [BuildCall old_method_src new_method_src repo_info]\<rparr>
      in case build_from_files env old_method_src new_method_src repo_info of
           Inl e \<Rightarrow>
             (None, log ERROR (UnableToBuild (r_path (repo c)) (hash c)
                      (full_name (heap s ! fst p)) (lineno (ast (heap s ! fst p)))) s1)
         | Inr cg \<Rightarrow>
             (let s2 = s1\<lparr>change_graphs := change_graphs s1 @ [cg]\<rparr> in
              if int (length (change_graphs s2)) \<ge> STORE_INTERVAL env then
                (case store_change_graphs env (change_graphs s2) s2 of
                   (Some e, s3) \<Rightarrow> (Some e, s3)
                 | (None, s3) \<Rightarrow> (None, s3\<lparr>change_graphs := []\<rparr>))
              else (None, s2)))"

text \<open>
  The body of the loop over \<^verbatim>\<open>old_method_to_new.items()\<close>: a pair goes to the builder
  unless one of the two texts is \<^verbatim>\<open>None\<close> or empty, or the two are equal.
\<close>

definition process_pair ::
  "'g env \<Rightarrow> commit \<Rightarrow> ref \<times> ref \<Rightarrow> 'g state \<Rightarrow> exn option \<times> 'g state" where
  "process_pair env c p s =
     (case get_source (heap s ! fst p) s of
        (old_method_src, s1) \<Rightarrow>
     (case get_source (heap s1 ! snd p) s1 of
        (new_method_src, s2) \<Rightarrow>
       if \<not> (truthy old_method_src \<and> truthy new_method_src) \<or> old_method_src = new_method_src
       then (None, s2)
       else build_pair env c p (the old_method_src) (the new_method_src) s2))"

fun process_pairs ::
  "'g env \<Rightarrow> commit \<Rightarrow> (ref \<times> ref) list \<Rightarrow> 'g state \<Rightarrow> exn option \<times> 'g state" where
  "process_pairs env c [] s = (None, s)"
| "process_pairs env c (p # ps) s =
     (case process_pair env c p s of
        (Some e, s') \<Rightarrow> (Some e, s')
      | (None, s') \<Rightarrow> process_pairs env c ps s')"

text \<open>
  The body of the loop over \<^verbatim>\<open>commit['modifications']\<close>. \<^verbatim>\<open>endswith\<close> is called on both
  paths before \<^verbatim>\<open>all\<close> looks at the results, and no such call exists on an absent path.
\<close>

definition path_endswith :: "string option \<Rightarrow> string \<Rightarrow> exn + bool" where
  "path_endswith p suffix =
     (case p of None \<Rightarrow> Inl AttributeError | Some s \<Rightarrow> Inr (endswith s suffix))"

definition process_mod ::
  "'g env \<Rightarrow> commit \<Rightarrow> modification \<Rightarrow> 'g state \<Rightarrow> exn option \<times> 'g state" where
  "process_mod env c m s =
     (if mtype m \<noteq> MODIFY then (None, s)
      else
        (case path_endswith (old_path m) ''.py'' of
           Inl e \<Rightarrow> (Some e, s)
         | Inr old_py \<Rightarrow>
        (case path_endswith (new_path m) ''.py'' of
           Inl e \<Rightarrow> (Some e, s)
         | Inr new_py \<Rightarrow>
           if \<not> (old_py \<and> new_py) then (None, s)
           else
             (case extract_methods env (old_path m) (old_src m) s of
                (old_methods, s1) \<Rightarrow>
             (case extract_methods env (new_path m) (new_src m) s1 of
                (new_methods, s2) \<Rightarrow>
                  process_pairs env c
                    (get_methods_mapping (heap s2) old_methods new_methods) s2)))))"

fun process_mods ::
  "'g env \<Rightarrow> commit \<Rightarrow> modification list \<Rightarrow> 'g state \<Rightarrow> exn option \<times> 'g state" where
  "process_mods env c [] s = (None, s)"
| "process_mods env c (m # ms) s =
     (case process_mod env c m s of
        (Some e, s') \<Rightarrow> (Some e, s')
      | (None, s') \<Rightarrow> process_mods env c ms s')"

text \<open>\<^verbatim>\<open>_get_commit_change_graphs\<close>, the task run for one commit.\<close>

definition get_commit_change_graphs ::
  "'g env \<Rightarrow> commit \<Rightarrow> 'g state \<Rightarrow> exn option \<times> 'g state" where
  "get_commit_change_graphs env c s =
     (let s0 = log INFO (LookingAtCommit (hash c) (replace_newlines (msg c)))
                 (s\<lparr>change_graphs := []\<rparr>)
      in case process_mods env c (modifications c) s0 of
           (Some e, s') \<Rightarrow> (Some e, s')
         | (None, s') \<Rightarrow>
             if change_graphs s' \<noteq> [] then store_change_graphs env (change_graphs s') s'
             else (None, s'))"

text \<open>
  One worker process of the pool. \<^verbatim>\<open>pool.map\<close> hands the commits out in chunks; the worker
  runs the task on the commits of a chunk one after the other, an exception of a task
  ends that chunk, and whatever a chunk did the worker goes on with the next chunk it is
  handed.
\<close>

fun run_chunk :: "'g env \<Rightarrow> commit list \<Rightarrow> 'g state \<Rightarrow> exn option \<times> 'g state" where
  "run_chunk env [] s = (None, s)"
| "run_chunk env (c # cs) s =
     (case get_commit_change_graphs env c s of
        (Some e, s') \<Rightarrow> (Some e, s')
      | (None, s') \<Rightarrow> run_chunk env cs s')"

fun worker :: "'g env \<Rightarrow> commit list list \<Rightarrow> 'g state \<Rightarrow> 'g state" where
  "worker env [] s = s"
| "worker env (chunk # chunks) s = worker env chunks (snd (run_chunk env chunk s))"


section \<open>Qualified names as the specification words them\<close>

text \<open>
  The joined name \<^verbatim>\<open>'.'.join(names)\<close>, and the function definitions of a statement that
  are reached through class bodies only, each with the names of its enclosing classes,
  outermost first, in the order of the text.
\<close>

fun dot_join :: "string list \<Rightarrow> string" where
  "dot_join [] = []"
| "dot_join [x] = x"
| "dot_join (x # y # ys) = x @ ''.'' @ dot_join (y # ys)"

fun enclosed_defs :: "string list \<Rightarrow> stmt \<Rightarrow> (string list \<times> node) list" where
  "enclosed_defs classes (FunctionDef nd body) = [(classes, nd)]"
| "enclosed_defs classes (ClassDef cname body) =
     concat (map (enclosed_defs (classes @ [cname])) body)"
| "enclosed_defs classes (OtherStmt children) = []"

definition qualified_method :: "string option \<Rightarrow> string \<Rightarrow> string list \<times> node \<Rightarrow> Method" where
  "qualified_method path source e =
     \<lparr>file_path = path, ast = snd e, src = strip source, name = node_name (snd e),
      full_name = dot_join (fst e @ [node_name (snd e)])\<rparr>"


section \<open>Predicates used in the proofs\<close>

text \<open>
  A store grows when the old cells keep their content; references are fresh when they
  are distinct cells allocated in between.
\<close>

definition fresh :: "heap \<Rightarrow> heap \<Rightarrow> ref list \<Rightarrow> bool" where
  "fresh h h' rs \<longleftrightarrow> distinct rs \<and> (\<forall>r\<in>set rs. length h \<le> r \<and> r < length h')"

definition grows :: "heap \<Rightarrow> heap \<Rightarrow> bool" where
  "grows h h' \<longleftrightarrow> length h \<le> length h' \<and> take (length h) h' = h"


text \<open>
  The record that \<^verbatim>\<open>_extract_commits\<close> builds for the mined commit \<open>snd e\<close> when it
  is given the number \<open>fst e\<close>.
\<close>

definition cut :: "repo \<Rightarrow> nat \<times> mined_commit \<Rightarrow> commit" where
  "cut r e = \<lparr>num = fst e, hash = mined_hash (snd e), msg = mined_msg (snd e),
      modifications = map cut_modification (mined_modifications (snd e)), repo = r\<rparr>"

text \<open>The new Methods whose qualified name is that of the old Method, in list order.\<close>

definition matches :: "heap \<Rightarrow> ref \<Rightarrow> ref list \<Rightarrow> ref list" where
  "matches h old_m new_methods
     = filter (\<lambda>new_m. full_name (h ! old_m) = full_name (h ! new_m)) new_methods"

text \<open>
  The position attributes that the parser gives to \<^verbatim>\<open>def f(): return 1\<close>, written on
  two lines, when the definition starts on the second line of a file.
\<close>

definition f_node :: node where
  "f_node = \<lparr>node_name = ''f'', lineno = 2, col_offset = 0,
     end_lineno = Some 3, end_col_offset = Some 12\<rparr>"

section \<open>Reading a trace\<close>

text \<open>
  The graphs that the builder returned for the calls of a trace, in call order; the test
  that a builder call was given two non-empty, different texts; what a run added to the
  trace and to the stored files.
\<close>

fun built :: "'g env \<Rightarrow> event list \<Rightarrow> 'g list" where
  "built env [] = []"
| "built env (BuildCall a b i # evs) =
     (case build_from_files env a b i of
        Inr cg \<Rightarrow> cg # built env evs
      | Inl e \<Rightarrow> built env evs)"
| "built env (Log lvl m # evs) = built env evs"
| "built env (ParseCall t # evs) = built env evs"

fun call_ok :: "event \<Rightarrow> bool" where
  "call_ok (BuildCall a b i) \<longleftrightarrow> a \<noteq> [] \<and> b \<noteq> [] \<and> a \<noteq> b"
| "call_ok (Log lvl m) \<longleftrightarrow> True"
| "call_ok (ParseCall t) \<longleftrightarrow> True"

definition new_events :: "'g state \<Rightarrow> 'g state \<Rightarrow> event list" where
  "new_events s s' = drop (length (events s)) (events s')"

definition new_storage :: "'g state \<Rightarrow> 'g state \<Rightarrow> 'g list list" where
  "new_storage s s' = drop (length (storage s)) (storage s')"

definition parse_fails :: "'g env \<Rightarrow> string option \<Rightarrow> bool" where
  "parse_fails env source =
     (case source of None \<Rightarrow> True | Some t \<Rightarrow> isl (ast_parse env t))"

text \<open>
  The relation between the state before a piece of the task and its result: the trace
  and the stored files only grow; the stored graphs followed by the pending ones are the
  pending ones of before followed by those built in between; every builder call is on
  non-empty, different texts; and, if fewer graphs than the threshold were pending, every
  file written holds exactly the threshold and fewer are pending afterwards.
\<close>

definition follows :: "'g env \<Rightarrow> 'g state \<Rightarrow> exn option \<times> 'g state \<Rightarrow> bool" where
  "follows env s r \<longleftrightarrow>
     (\<exists>evs arts.
        events (snd r) = events s @ evs \<and> storage (snd r) = storage s @ arts \<and>
        concat arts @ change_graphs (snd r) = change_graphs s @ built env evs \<and>
        list_all call_ok evs \<and>
        (int (length (change_graphs s)) < STORE_INTERVAL env \<longrightarrow>
           list_all (\<lambda>a. int (length a) = STORE_INTERVAL env) arts \<and>
           (fst r = None \<longrightarrow> int (length (change_graphs (snd r))) < STORE_INTERVAL env)))"

section \<open>A small commit to run the task on\<close>

text \<open>
  A file \<^verbatim>\<open>a.py\<close> with the three functions \<^verbatim>\<open>f\<close>, \<^verbatim>\<open>g\<close> and \<^verbatim>\<open>h\<close>, one per line, whose
  bodies all change in the commit; \<open>def_node\<close> gives the positions that the parser reports
  for the function on a line. The builder of \<open>demo_env\<close> raises for \<^verbatim>\<open>g\<close> and returns
  the pair of its two texts otherwise; every write succeeds; the threshold is 2.
\<close>

definition demo_old :: string where
  "demo_old = ''def f(): 1\<newline>def g(): 1\<newline>def h(): 1''"

definition demo_new :: string where
  "demo_new = ''def f(): 2\<newline>def g(): 2\<newline>def h(): 2''"

definition def_node :: "string \<Rightarrow> int \<Rightarrow> node" where
  "def_node nm k = \<lparr>node_name = nm, lineno = k, col_offset = 0,
     end_lineno = Some k, end_col_offset = Some 10\<rparr>"

definition demo_module :: "stmt list" where
  "demo_module = [FunctionDef (def_node ''f'' 1) [OtherStmt []],
     FunctionDef (def_node ''g'' 2) [OtherStmt []],
     FunctionDef (def_node ''h'' 3) [OtherStmt []]]"

definition demo_env :: "(string \<times> string) env" where
  "demo_env = \<lparr>ast_parse = (\<lambda>t. if t = demo_old \<or> t = demo_new then Inr demo_module
                                  else if t = ''def f(): 1'' \<or> t = ''def f(): 2''
                                  then Inr [FunctionDef (def_node ''f'' 1) [OtherStmt []]]
                                  else Inl SyntaxError),
     build_from_files = (\<lambda>a b i. if a = ''def g(): 1'' then Inl BuilderError else Inr (a, b)),
     pickle_dump = (\<lambda>gs. None),
     STORE_INTERVAL = 2\<rparr>"

definition demo_modification :: modification where
  "demo_modification = \<lparr>mtype = MODIFY, old_src = Some demo_old, old_path = Some ''a.py'',
     new_src = Some demo_new, new_path = Some ''a.py''\<rparr>"

definition demo_commit :: commit where
  "demo_commit = \<lparr>num = 1, hash = ''c1'', msg = ''edit'',
     modifications = [demo_modification],
     repo = \<lparr>r_name = ''r'', r_path = ''/repos/r'', r_url = ''u''\<rparr>\<rparr>"

definition empty_state :: "(string \<times> string) state" where
  "empty_state = \<lparr>heap = [], events = [], change_graphs = [], storage = []\<rparr>"

text \<open>A second commit, in which a file with the single function \<^verbatim>\<open>f\<close> changes.\<close>

definition small_commit :: commit where
  "small_commit = \<lparr>num = 2, hash = ''c2'', msg = ''edit f'',
     modifications = [\<lparr>mtype = MODIFY, old_src = Some ''def f(): 1'', old_path = Some ''b.py'',
        new_src = Some ''def f(): 2'', new_path = Some ''b.py''\<rparr>],
     repo = \<lparr>r_name = ''r'', r_path = ''/repos/r'', r_url = ''u''\<rparr>\<rparr>"

text \<open>The state in which the task for \<open>small_commit\<close> leaves a worker that starts empty.\<close>

definition after_small_commit :: "(string \<times> string) state" where
  "after_small_commit =
     \<lparr>heap = [Method_init (Some ''b.py'') ''f'' (def_node ''f'' 1) ''def f(): 1'',
              Method_init (Some ''b.py'') ''f'' (def_node ''f'' 1) ''def f(): 2''],
      events = [Log INFO (LookingAtCommit ''c2'' ''edit f''),
        ParseCall (Some ''def f(): 1''), ParseCall (Some ''def f(): 2''),
        BuildCall ''def f(): 1'' ''def f(): 2''
          \<lparr>repo_name = ''r'', repo_path = ''/repos/r'', repo_url = ''u'',
           commit_hash = ''c2'', old_method = 0, new_method = 1\<rparr>,
        Log INFO StoringGraphs, Log INFO StoringFinished],
      change_graphs = [(''def f(): 1'', ''def f(): 2'')],
      storage = [[(''def f(): 1'', ''def f(): 2'')]]\<rparr>"

text \<open>
  The pieces of \<^verbatim>\<open>_get_commit_change_graphs\<close> around its loop, named so that a run can be
  cut at a point of the loop: the state in which the loop starts, the flush of the
  remainder that ends the task, and, for one modification that is looked at, the matched
  pairs with the state after the two extractions.
\<close>

definition task_start :: "commit \<Rightarrow> 'g state \<Rightarrow> 'g state" where
  "task_start c s =
     log INFO (LookingAtCommit (hash c) (replace_newlines (msg c))) (s\<lparr>change_graphs := []\<rparr>)"

definition task_end :: "'g env \<Rightarrow> exn option \<times> 'g state \<Rightarrow> exn option \<times> 'g state" where
  "task_end env r =
     (case r of
        (Some e, s') \<Rightarrow> (Some e, s')
      | (None, s') \<Rightarrow>
          if change_graphs s' \<noteq> [] then store_change_graphs env (change_graphs s') s'
          else (None, s'))"

definition matched_pairs ::
  "'g env \<Rightarrow> modification \<Rightarrow> 'g state \<Rightarrow> (ref \<times> ref) list \<times> 'g state" where
  "matched_pairs env m s =
     (case extract_methods env (old_path m) (old_src m) s of
        (old_methods, s1) \<Rightarrow>
     (case extract_methods env (new_path m) (new_src m) s1 of
        (new_methods, s2) \<Rightarrow>
          (get_methods_mapping (heap s2) old_methods new_methods, s2)))"

text \<open>
  A commit with two modified files, the three functions of \<^verbatim>\<open>a.py\<close> and the single
  function of \<^verbatim>\<open>b.py\<close>, and the state of its task just before the pair of \<^verbatim>\<open>g\<close>, for
  which the builder of \<open>demo_env\<close> raises.
\<close>

definition two_mod_commit :: commit where
  "two_mod_commit = \<lparr>num = 3, hash = ''c3'', msg = ''edit both'',
     modifications = [demo_modification,
       \<lparr>mtype = MODIFY, old_src = Some ''def f(): 1'', old_path = Some ''b.py'',
        new_src = Some ''def f(): 2'', new_path = Some ''b.py''\<rparr>],
     repo = \<lparr>r_name = ''r'', r_path = ''/repos/r'', r_url = ''u''\<rparr>\<rparr>"

definition two_mod_extracted :: "(string \<times> string) state" where
  "two_mod_extracted =
     snd (matched_pairs demo_env demo_modification (task_start two_mod_commit empty_state))"

definition two_mod_before_g :: "(string \<times> string) state" where
  "two_mod_before_g = snd (process_pairs demo_env two_mod_commit [(0, 3)] two_mod_extracted)"

section \<open>Extraction and qualified names\<close>

lemma enclosed_defs_prefix:
  "enclosed_defs (pre @ classes) st = map (\<lambda>e. (pre @ fst e, snd e)) (enclosed_defs classes st)"
proof (induction classes st rule: enclosed_defs.induct)
  case (2 classes cname body)
  have "map (enclosed_defs (pre @ classes @ [cname])) body
      = map (\<lambda>st. map (\<lambda>e. (pre @ fst e, snd e)) (enclosed_defs (classes @ [cname]) st)) body"
    by (rule map_cong[OF refl]) (use 2 in simp)
  then have "concat (map (enclosed_defs (pre @ classes @ [cname])) body)
      = concat (map (\<lambda>st. map (\<lambda>e. (pre @ fst e, snd e)) (enclosed_defs (classes @ [cname]) st)) body)"
    by (rule arg_cong)
  then show ?case by (simp add: map_concat comp_def del: map_eq_conv)
qed simp_all

lemma dot_join_Cons: "xs \<noteq> [] \<Longrightarrow> dot_join (c # xs) = c @ ''.'' @ dot_join xs"
  by (cases xs) simp_all

lemma extend_path_qualified:
  "extend_path c (qualified_method path source e) = qualified_method path source (c # fst e, snd e)"
  by (simp add: extend_path_def qualified_method_def dot_join_Cons)

lemma extend_all_length [simp]: "length (extend_all c rs h) = length h"
  by (induction rs arbitrary: h) simp_all

lemma extend_all_nth:
  "distinct rs \<Longrightarrow> \<forall>r\<in>set rs. r < length h \<Longrightarrow>
   extend_all c rs h ! i = (if i \<in> set rs then extend_path c (h ! i) else h ! i)"
proof (induction rs arbitrary: h)
  case Nil
  then show ?case by simp
next
  case (Cons r rs)
  have "extend_all c rs (h[r := extend_path c (h ! r)]) ! i =
     (if i \<in> set rs then extend_path c (h[r := extend_path c (h ! r)] ! i)
      else h[r := extend_path c (h ! r)] ! i)"
    using Cons.prems by (intro Cons.IH) simp_all
  then show ?case using Cons.prems by (cases "i = r") (auto simp: nth_list_update)
qed

lemma grows_refl [simp]: "grows h h"
  by (simp add: grows_def)

lemma grows_trans:
  assumes "grows h h1" "grows h1 h2"
  shows "grows h h2"
proof -
  have le: "length h \<le> length h1" "length h1 \<le> length h2"
    and t1: "take (length h) h1 = h" and t2: "take (length h1) h2 = h1"
    using assms by (simp_all add: grows_def)
  have "take (length h) h2 = take (length h) (take (length h1) h2)"
    using le by (simp add: min_def)
  also have "\<dots> = h"
    by (simp only: t2 t1)
  finally show ?thesis
    using le by (simp add: grows_def)
qed

lemma grows_nth:
  assumes "grows h h'" "i < length h"
  shows "h' ! i = h ! i"
proof -
  have "take (length h) h' ! i = h' ! i"
    using assms(2) by (rule nth_take)
  then show ?thesis
    using assms(1) by (simp add: grows_def)
qed

lemma grows_extend_all:
  assumes "grows h h'" "fresh h h' rs"
  shows "grows h (extend_all c rs h')"
proof -
  have d: "distinct rs" and b: "\<forall>r\<in>set rs. r < length h'"
    and lo: "\<forall>r\<in>set rs. length h \<le> r"
    using assms(2) by (auto simp: fresh_def)
  have "take (length h) (extend_all c rs h') = take (length h) h'"
  proof (rule nth_take_lemma)
    show "length h \<le> length (extend_all c rs h')"
      using assms(1) by (simp add: grows_def)
    show "length h \<le> length h'"
      using assms(1) by (simp add: grows_def)
    fix i
    show "i < length h \<longrightarrow> extend_all c rs h' ! i = h' ! i"
    proof
      assume "i < length h"
      then have "i \<notin> set rs" using lo by auto
      then show "extend_all c rs h' ! i = h' ! i"
        by (simp add: extend_all_nth[OF d b])
    qed
  qed
  then show ?thesis
    using assms(1) by (simp add: grows_def)
qed

lemma visit_sound:
  "visit path source st h = (res, h') \<Longrightarrow>
     grows h h' \<and>
     (res = None \<longrightarrow> enclosed_defs [] st = []) \<and>
     (\<forall>rs. res = Some rs \<longrightarrow> fresh h h' rs \<and>
        map ((!) h') rs = map (qualified_method path source) (enclosed_defs [] st))"
  "visit_body path source body ms h = (ms', h') \<Longrightarrow>
     grows h h' \<and>
     (\<exists>new. ms' = ms @ new \<and> fresh h h' new \<and>
        map ((!) h') new = map (qualified_method path source) (concat (map (enclosed_defs []) body)))"
  "generic_visit path source cs h = h' \<Longrightarrow> grows h h'"
proof (induction path source st h and path source body ms h and path source cs h
    arbitrary: res h' and ms' h' and h' rule: visit_visit_body_generic_visit.induct)
  case (1 path source nd body h)
  then have "res = Some [length h]" "h' = h @ [Method_init path (node_name nd) nd source]"
    by auto
  then show ?case
    by (simp add: grows_def fresh_def qualified_method_def Method_init_def)
next
  case (2 path source cname body h)
  obtain ms h1 where vb: "visit_body path source body [] h = (ms, h1)"
    by (cases "visit_body path source body [] h")
  from 2(1)[OF vb] have g: "grows h h1" and f: "fresh h h1 ms"
    and m: "map ((!) h1) ms = map (qualified_method path source) (concat (map (enclosed_defs []) body))"
    by auto
  from 2(2) vb have res: "res = Some ms" and h': "h' = extend_all cname ms h1" by auto
  have "map ((!) h') ms = map (extend_path cname) (map ((!) h1) ms)"
    using f by (auto simp: h' extend_all_nth fresh_def)
  also have "\<dots> = map (qualified_method path source) (enclosed_defs [] (ClassDef cname body))"
    using enclosed_defs_prefix[of "[cname]" "[]"]
    by (simp add: m map_concat comp_def extend_path_qualified)
  finally have m': "map ((!) h') ms
      = map (qualified_method path source) (enclosed_defs [] (ClassDef cname body))" .
  have f': "fresh h h' ms"
    using f by (simp add: fresh_def h')
  have g': "grows h h'"
    unfolding h' by (rule grows_extend_all[OF g f])
  show ?case
    using m' f' g' by (simp add: res)
next
  case (3 path source children h)
  then show ?case by auto
next
  case (4 path source methods h)
  then show ?case by (auto simp: fresh_def)
next
  case (5 path source st rest methods h)
  obtain r h1 where v: "visit path source st h = (r, h1)"
    by (cases "visit path source st h")
  let ?ms1 = "if truthy r then methods @ the r else methods"
  from 5(3) v have vb: "visit_body path source rest ?ms1 h1 = (ms', h')" by simp
  from 5(1)[OF v] have g1: "grows h h1"
    and n1: "r = None \<longrightarrow> enclosed_defs [] st = []"
    and s1: "\<forall>rs. r = Some rs \<longrightarrow> fresh h h1 rs \<and>
        map ((!) h1) rs = map (qualified_method path source) (enclosed_defs [] st)"
    by auto
  from 5(2)[OF v[symmetric] vb] obtain new where g2: "grows h1 h'"
    and ms': "ms' = ?ms1 @ new" and f2: "fresh h1 h' new"
    and m2: "map ((!) h') new = map (qualified_method path source) (concat (map (enclosed_defs []) rest))"
    by auto
  define mine where "mine = (if truthy r then the r else [])"
  have f1: "fresh h h1 mine"
    and m1: "map ((!) h1) mine = map (qualified_method path source) (enclosed_defs [] st)"
    using n1 s1 by (auto simp: mine_def truthy_def fresh_def split: option.splits)
  have "map ((!) h') mine = map ((!) h1) mine"
    using f1 g2 by (auto simp: fresh_def grows_nth)
  with m1 m2 have "map ((!) h') (mine @ new)
      = map (qualified_method path source) (concat (map (enclosed_defs []) (st # rest)))"
    by simp
  moreover have "fresh h h' (mine @ new)"
  proof -
    have "length h \<le> length h1" "length h1 \<le> length h'"
      using g1 g2 by (simp_all add: grows_def)
    then show ?thesis
      using f1 f2 unfolding fresh_def by fastforce
  qed
  moreover have "ms' = methods @ mine @ new"
    by (simp add: ms' mine_def)
  ultimately have "\<exists>new. ms' = methods @ new \<and> fresh h h' new \<and>
      map ((!) h') new
        = map (qualified_method path source) (concat (map (enclosed_defs []) (st # rest)))"
    by (intro exI[of _ "mine @ new"]) simp
  then show ?case using grows_trans[OF g1 g2] by simp
next
  case (6 path source h)
  then show ?case by simp
next
  case (7 path source c cs h)
  obtain r h1 where v: "visit path source c h = (r, h1)"
    by (cases "visit path source c h")
  from 7(1)[OF v] have "grows h h1" by simp
  moreover from 7(2)[of h'] 7(3) v have "grows h1 h'" by simp
  ultimately show ?case by (rule grows_trans)
qed


lemma visit_Module_sound:
  assumes "visit_Module path source body h = (ms, h')"
  shows "grows h h'" and "fresh h h' ms"
    and "map ((!) h') ms = map (qualified_method path source) (concat (map (enclosed_defs []) body))"
  using visit_sound(2)[of path source body "[]" h ms h'] assms
  by (auto simp: visit_Module_def)

text \<open>
  Claim C1. When the text of a file parses, the Methods that \<^verbatim>\<open>_extract_methods\<close> returns
  are, in the order of the text, the function definitions reached through class bodies,
  and the qualified name of each is the dot-joined list of its enclosing class names,
  outermost first, followed by its bare name, at any depth of nesting.
\<close>

theorem extracted_full_name_is_dot_joined_path:
  assumes "ast_parse env source = Inr body"
  shows "map ((!) (heap (snd (extract_methods env path (Some source) s))))
           (fst (extract_methods env path (Some source) s))
         = map (qualified_method path source) (concat (map (enclosed_defs []) body))"
proof -
  obtain ms h' where v: "visit_Module path source body (heap s) = (ms, h')"
    by (cases "visit_Module path source body (heap s)")
  then have "extract_methods env path (Some source) s
      = (ms, s\<lparr>events := events s @ [ParseCall (Some source)], heap := h'\<rparr>)"
    using assms by (simp add: extract_methods_def)
  then show ?thesis
    using visit_Module_sound(3)[OF v] by simp
qed

theorem extracted_full_name_is_dot_joined_path_witness:
  "ast_parse \<lparr>ast_parse = (\<lambda>t. Inr [ClassDef ''Outer'' [ClassDef ''Inner''
        [FunctionDef \<lparr>node_name = ''run'', lineno = 3, col_offset = 8,
           end_lineno = Some 4, end_col_offset = Some 16\<rparr> []]]]),
      build_from_files = (\<lambda>a b i. Inl BuilderError), pickle_dump = (\<lambda>g. None),
      STORE_INTERVAL = 300\<rparr> ''x''
   = (Inr [ClassDef ''Outer'' [ClassDef ''Inner''
        [FunctionDef \<lparr>node_name = ''run'', lineno = 3, col_offset = 8,
           end_lineno = Some 4, end_col_offset = Some 16\<rparr> []]]] :: exn + stmt list)
   \<and> map full_name (map (qualified_method None ''x'')
        (concat (map (enclosed_defs [])
          [ClassDef ''Outer'' [ClassDef ''Inner''
            [FunctionDef \<lparr>node_name = ''run'', lineno = 3, col_offset = 8,
               end_lineno = Some 4, end_col_offset = Some 16\<rparr> []]]])))
     = [''Outer.Inner.run'']
   \<and> map full_name (map ((!) (heap (snd (extract_methods
        \<lparr>ast_parse = (\<lambda>t. Inr [ClassDef ''Outer'' [ClassDef ''Inner''
            [FunctionDef \<lparr>node_name = ''run'', lineno = 3, col_offset = 8,
               end_lineno = Some 4, end_col_offset = Some 16\<rparr> []]]]),
          build_from_files = (\<lambda>a b i. Inl BuilderError), pickle_dump = (\<lambda>g. None),
          STORE_INTERVAL = 300\<rparr> None (Some ''x'')
        (\<lparr>heap = [], events = [], change_graphs = [], storage = []\<rparr> :: unit state)))))
       (fst (extract_methods
        \<lparr>ast_parse = (\<lambda>t. Inr [ClassDef ''Outer'' [ClassDef ''Inner''
            [FunctionDef \<lparr>node_name = ''run'', lineno = 3, col_offset = 8,
               end_lineno = Some 4, end_col_offset = Some 16\<rparr> []]]]),
          build_from_files = (\<lambda>a b i. Inl BuilderError), pickle_dump = (\<lambda>g. None),
          STORE_INTERVAL = 300\<rparr> None (Some ''x'')
        (\<lparr>heap = [], events = [], change_graphs = [], storage = []\<rparr> :: unit state))))
     = [''Outer.Inner.run'']"
  using extracted_full_name_is_dot_joined_path[of
      "\<lparr>ast_parse = (\<lambda>t. Inr [ClassDef ''Outer'' [ClassDef ''Inner''
            [FunctionDef \<lparr>node_name = ''run'', lineno = 3, col_offset = 8,
               end_lineno = Some 4, end_col_offset = Some 16\<rparr> []]]]),
          build_from_files = (\<lambda>a b i. Inl BuilderError), pickle_dump = (\<lambda>g. None),
          STORE_INTERVAL = 300\<rparr>" "''x''"
      "[ClassDef ''Outer'' [ClassDef ''Inner''
            [FunctionDef \<lparr>node_name = ''run'', lineno = 3, col_offset = 8,
               end_lineno = Some 4, end_col_offset = Some 16\<rparr> []]]]"
      None "\<lparr>heap = [], events = [], change_graphs = [], storage = []\<rparr> :: unit state"]
  by (simp add: qualified_method_def)

section \<open>Root commits\<close>

lemma extract_commits_loop_eq:
  "extract_commits_loop r history commits
     = commits @ map (cut r)
         (enumerate (length commits + 1) (filter (\<lambda>c. parents c \<noteq> []) history))"
  by (induction history arbitrary: commits) (simp_all add: cut_def)

text \<open>
  Claim C5. The commit list of a repository holds one record for each mined commit that
  has a parent, in history order and numbered from 1, and nothing else: a commit without
  parents gets no record, so the pool, which maps the task over this list, is never handed
  one.
\<close>

theorem extract_commits_skips_root_commits:
  "extract_commits nm pth url history
     = map (cut \<lparr>r_name = nm, r_path = pth, r_url = url\<rparr>)
         (enumerate 1 (filter (\<lambda>c. parents c \<noteq> []) history))"
  by (simp add: extract_commits_def extract_commits_loop_eq)

theorem extract_commits_skips_root_commits_witness:
  "map hash (extract_commits ''r'' ''/repos/r'' ''u''
     [\<lparr>mined_hash = ''a0'', mined_msg = ''init'', parents = [], mined_modifications = []\<rparr>,
      \<lparr>mined_hash = ''b1'', mined_msg = ''fix'', parents = [''a0''], mined_modifications = []\<rparr>])
   = [''b1'']"
  using extract_commits_skips_root_commits[of "''r''" "''/repos/r''" "''u''"
     "[\<lparr>mined_hash = ''a0'', mined_msg = ''init'', parents = [], mined_modifications = []\<rparr>,
      \<lparr>mined_hash = ''b1'', mined_msg = ''fix'', parents = [''a0''], mined_modifications = []\<rparr>]"]
  by (simp add: cut_def enumerate_eq_zip)

section \<open>Modifications that are not looked at\<close>

text \<open>
  Claim C6. A modification whose kind is not \<^verbatim>\<open>MODIFY\<close>, or whose old or new path does not
  end with \<^verbatim>\<open>.py\<close>, leaves the whole state as it was: the parser is not called, no Method
  object is made and the builder is not called.
\<close>

theorem process_mod_ignores_other_modifications:
  assumes "mtype m \<noteq> MODIFY \<or> path_endswith (old_path m) ''.py'' \<noteq> Inr True
             \<or> path_endswith (new_path m) ''.py'' \<noteq> Inr True"
  shows "snd (process_mod env c m s) = s"
  using assms by (auto simp: process_mod_def split: sum.splits)

theorem process_mod_ignores_other_modifications_witness:
  "path_endswith (old_path \<lparr>mtype = MODIFY, old_src = Some ''x'', old_path = Some ''a.txt'',
        new_src = Some ''y'', new_path = Some ''a.py''\<rparr>) ''.py'' \<noteq> Inr True
   \<and> snd (process_mod demo_env demo_commit
        \<lparr>mtype = MODIFY, old_src = Some ''x'', old_path = Some ''a.txt'',
         new_src = Some ''y'', new_path = Some ''a.py''\<rparr> empty_state) = empty_state"
  using process_mod_ignores_other_modifications[of
      "\<lparr>mtype = MODIFY, old_src = Some ''x'', old_path = Some ''a.txt'',
        new_src = Some ''y'', new_path = Some ''a.py''\<rparr>" demo_env demo_commit empty_state]
  by (simp add: path_endswith_def endswith_def)

section \<open>The matcher\<close>

lemma map_of_dict_set: "map_of (dict_set d k v) = (map_of d)(k \<mapsto> v)"
  by (induction d k v rule: dict_set.induct) (auto simp: fun_eq_iff)

lemma keys_dict_set:
  "map fst (dict_set d k v) = (if k \<in> set (map fst d) then map fst d else map fst d @ [k])"
  by (induction d k v rule: dict_set.induct) auto

lemma map_of_mapping_inner:
  "map_of (mapping_inner h k news d)
     = (if matches h k news = [] then map_of d else (map_of d)(k \<mapsto> last (matches h k news)))"
  by (induction news arbitrary: d) (auto simp: matches_def map_of_dict_set)

lemma map_of_mapping_outer:
  "map_of (mapping_outer h olds news d) k
     = (if k \<in> set olds \<and> matches h k news \<noteq> [] then Some (last (matches h k news))
        else map_of d k)"
  by (induction olds arbitrary: d) (auto simp: map_of_mapping_inner)

lemma keys_mapping_inner:
  "distinct (map fst d) \<Longrightarrow> distinct (map fst (mapping_inner h k news d))"
  by (induction news arbitrary: d) (auto simp: keys_dict_set)

lemma keys_mapping_outer:
  "distinct (map fst d) \<Longrightarrow> distinct (map fst (mapping_outer h olds news d))"
  by (induction olds arbitrary: d) (auto simp: keys_mapping_inner)

text \<open>
  Claim C9. An old Method that has at least one new Method of the same qualified name is
  mapped to the last of them in the order of the list of new Methods.
\<close>

theorem matcher_last_seen_wins:
  assumes "old_m \<in> set old_methods" and "matches h old_m new_methods \<noteq> []"
  shows "map_of (get_methods_mapping h old_methods new_methods) old_m
           = Some (last (matches h old_m new_methods))"
  using assms by (simp add: get_methods_mapping_def map_of_mapping_outer)

theorem matcher_last_seen_wins_witness:
  "(0::nat) \<in> set [0]
   \<and> matches [Method_init None ''f'' f_node [], Method_init None ''f'' f_node [],
        Method_init None ''f'' f_node []] 0 [1, 2] = [1, 2]
   \<and> map_of (get_methods_mapping [Method_init None ''f'' f_node [],
        Method_init None ''f'' f_node [], Method_init None ''f'' f_node []] [0] [1, 2]) 0
     = Some 2"
  using matcher_last_seen_wins[of 0 "[0]" "[Method_init None ''f'' f_node [],
        Method_init None ''f'' f_node [], Method_init None ''f'' f_node []]" "[1, 2]"]
  by (simp add: matches_def Method_init_def)

text \<open>
  Claim C10. The mapping is keyed by the old Method objects: two different old Methods of
  one qualified name that some new Method has are two entries of the mapping, both with
  the winning new Method as value, and no key occurs twice.
\<close>

theorem matcher_keeps_old_duplicates_apart:
  assumes "a \<in> set old_methods" "b \<in> set old_methods" "a \<noteq> b"
    and "full_name (h ! a) = full_name (h ! b)"
    and "matches h a new_methods \<noteq> []"
  shows "(a, last (matches h a new_methods)) \<in> set (get_methods_mapping h old_methods new_methods)
       \<and> (b, last (matches h a new_methods)) \<in> set (get_methods_mapping h old_methods new_methods)
       \<and> distinct (map fst (get_methods_mapping h old_methods new_methods))"
proof -
  have m: "matches h b new_methods = matches h a new_methods"
    using assms(4) by (simp add: matches_def)
  have ma: "map_of (get_methods_mapping h old_methods new_methods) a
      = Some (last (matches h a new_methods))"
    using assms by (simp add: get_methods_mapping_def map_of_mapping_outer)
  have mb: "map_of (get_methods_mapping h old_methods new_methods) b
      = Some (last (matches h a new_methods))"
    using assms m by (simp add: get_methods_mapping_def map_of_mapping_outer)
  have "distinct (map fst (get_methods_mapping h old_methods new_methods))"
    by (simp add: get_methods_mapping_def keys_mapping_outer)
  then show ?thesis
    using map_of_SomeD[OF ma] map_of_SomeD[OF mb] by simp
qed

theorem matcher_keeps_old_duplicates_apart_witness:
  "get_methods_mapping [Method_init None ''f'' f_node [], Method_init None ''f'' f_node [],
      Method_init None ''f'' f_node [], Method_init None ''f'' f_node []] [0, 1] [2, 3]
     = [(0, 3), (1, 3)]
   \<and> (0, last (matches [Method_init None ''f'' f_node [], Method_init None ''f'' f_node [],
      Method_init None ''f'' f_node [], Method_init None ''f'' f_node []] 0 [2, 3]))
      \<in> set (get_methods_mapping [Method_init None ''f'' f_node [],
      Method_init None ''f'' f_node [], Method_init None ''f'' f_node [],
      Method_init None ''f'' f_node []] [0, 1] [2, 3])"
  using matcher_keeps_old_duplicates_apart[of 0 "[0, 1]" 1
      "[Method_init None ''f'' f_node [], Method_init None ''f'' f_node [],
      Method_init None ''f'' f_node [], Method_init None ''f'' f_node []]" "[2, 3]"]
  by (simp add: matches_def Method_init_def get_methods_mapping_def)

section \<open>The text that positions are read against\<close>

text \<open>
  Claim C8 says that the span of a Method is cut out of the full text of the file. The
  constructor keeps the stripped text instead, while the positions of the node count
  lines in the text that was parsed. For the file
  \<^verbatim>\<open>"\ndef f():\n    return 1\nx = 2\n"\<close>, which starts with an empty line, the positions
  of \<open>f_node\<close> cut \<^verbatim>\<open>"def f():\n    return 1"\<close> out of the full text, and
  \<^verbatim>\<open>get_source\<close> returns \<^verbatim>\<open>"    return 1\nx = 2"\<close>.
\<close>

theorem get_source_reads_stripped_text:
  "get_source_segment ''\<newline>def f():\<newline>    return 1\<newline>x = 2\<newline>'' f_node
     = Inr (Some ''def f():\<newline>    return 1'')
   \<and> fst (get_source
          (Method_init None ''f'' f_node ''\<newline>def f():\<newline>    return 1\<newline>x = 2\<newline>'')
          (\<lparr>heap = [], events = [], change_graphs = [], storage = []\<rparr> :: unit state))
     = Some ''    return 1\<newline>x = 2''"
  by (simp add: get_source_def Method_init_def strip_def isspace_def get_source_segment_def
      f_node_def splitlines_no_ff_def py_index_def py_slice_def slice_bound_def)

section \<open>What a task adds to the trace and to the store\<close>

lemma built_append: "built env (xs @ ys) = built env xs @ built env ys"
  by (induction env xs rule: built.induct) (auto split: sum.splits)

lemma followsI:
  assumes "events (snd r) = events s @ evs" "storage (snd r) = storage s @ arts"
    and "concat arts @ change_graphs (snd r) = change_graphs s @ built env evs"
    and "list_all call_ok evs"
    and "int (length (change_graphs s)) < STORE_INTERVAL env \<Longrightarrow>
           list_all (\<lambda>a. int (length a) = STORE_INTERVAL env) arts \<and>
           (fst r = None \<longrightarrow> int (length (change_graphs (snd r))) < STORE_INTERVAL env)"
  shows "follows env s r"
  unfolding follows_def
  by (rule exI[of _ evs], rule exI[of _ arts]) (use assms in auto)

lemma follows_refl: "follows env s (None, s)"
  by (rule followsI[where evs = "[]" and arts = "[]"]) simp_all

lemma follows_trans:
  assumes "follows env s (None, s1)" "follows env s1 r"
  shows "follows env s r"
proof -
  from assms(1) obtain evs1 arts1 where
    e1: "events s1 = events s @ evs1" and a1: "storage s1 = storage s @ arts1"
    and c1: "concat arts1 @ change_graphs s1 = change_graphs s @ built env evs1"
    and k1: "list_all call_ok evs1"
    and b1: "int (length (change_graphs s)) < STORE_INTERVAL env \<longrightarrow>
           list_all (\<lambda>a. int (length a) = STORE_INTERVAL env) arts1 \<and>
           int (length (change_graphs s1)) < STORE_INTERVAL env"
    unfolding follows_def by auto
  from assms(2) obtain evs2 arts2 where
    e2: "events (snd r) = events s1 @ evs2" and a2: "storage (snd r) = storage s1 @ arts2"
    and c2: "concat arts2 @ change_graphs (snd r) = change_graphs s1 @ built env evs2"
    and k2: "list_all call_ok evs2"
    and b2: "int (length (change_graphs s1)) < STORE_INTERVAL env \<longrightarrow>
           list_all (\<lambda>a. int (length a) = STORE_INTERVAL env) arts2 \<and>
           (fst r = None \<longrightarrow> int (length (change_graphs (snd r))) < STORE_INTERVAL env)"
    unfolding follows_def by auto
  show ?thesis
  proof (rule followsI[where evs = "evs1 @ evs2" and arts = "arts1 @ arts2"])
    show "events (snd r) = events s @ evs1 @ evs2" by (simp add: e1 e2)
    show "storage (snd r) = storage s @ arts1 @ arts2" by (simp add: a1 a2)
    have "concat (arts1 @ arts2) @ change_graphs (snd r)
        = concat arts1 @ (concat arts2 @ change_graphs (snd r))" by simp
    also have "\<dots> = (concat arts1 @ change_graphs s1) @ built env evs2"
      by (simp only: c2 append_assoc)
    also have "\<dots> = change_graphs s @ built env (evs1 @ evs2)"
      by (simp only: c1 built_append append_assoc)
    finally show "concat (arts1 @ arts2) @ change_graphs (snd r)
        = change_graphs s @ built env (evs1 @ evs2)" .
    show "list_all call_ok (evs1 @ evs2)" using k1 k2 by simp
    assume "int (length (change_graphs s)) < STORE_INTERVAL env"
    then show "list_all (\<lambda>a. int (length a) = STORE_INTERVAL env) (arts1 @ arts2) \<and>
       (fst r = None \<longrightarrow> int (length (change_graphs (snd r))) < STORE_INTERVAL env)"
      using b1 b2 by simp
  qed
qed

lemma get_source_cases:
  "get_source m s = (r, s') \<Longrightarrow>
     heap s' = heap s \<and> change_graphs s' = change_graphs s \<and> storage s' = storage s \<and>
     (events s' = events s \<or> events s' = events s @ [Log INFO (UnableToExtractSegment (ast m))])"
  by (auto simp: get_source_def log_def split: sum.splits)

lemma extract_methods_keeps:
  "extract_methods env path source s = (ms, s') \<Longrightarrow>
     change_graphs s' = change_graphs s \<and> storage s' = storage s \<and>
     (events s' = events s @ [ParseCall source]
      \<or> events s' = events s @ [ParseCall source, Log INFO UnableToCompile])"
  by (auto simp: extract_methods_def log_def Let_def split: sum.splits prod.splits option.splits)

lemma follows_quiet:
  assumes "change_graphs s' = change_graphs s" "storage s' = storage s"
    and "events s' = events s @ evs" "built env evs = []" "list_all call_ok evs"
  shows "follows env s (None, s')"
  by (rule followsI[where evs = evs and arts = "[]"]) (use assms in simp_all)

lemma follows_get_source:
  "get_source m s = (r, s') \<Longrightarrow> follows env s (None, s')"
  by (drule get_source_cases) (auto intro: follows_quiet[where evs = "[]"]
      follows_quiet[where evs = "[Log INFO (UnableToExtractSegment (ast m))]"])

lemma follows_extract_methods:
  "extract_methods env path source s = (ms, s') \<Longrightarrow> follows env s (None, s')"
  by (drule extract_methods_keeps) (auto intro: follows_quiet[where evs = "[ParseCall source]"]
      follows_quiet[where evs = "[ParseCall source, Log INFO UnableToCompile]"])


lemma store_change_graphs_cases:
  "store_change_graphs env gs s = (out, s') \<Longrightarrow>
     heap s' = heap s \<and> change_graphs s' = change_graphs s \<and>
     (case out of
        Some e \<Rightarrow> pickle_dump env gs = Some e \<and> storage s' = storage s \<and>
                  events s' = events s @ [Log INFO StoringGraphs]
      | None \<Rightarrow> pickle_dump env gs = None \<and> storage s' = storage s @ [gs] \<and>
                events s' = events s @ [Log INFO StoringGraphs, Log INFO StoringFinished])"
  by (auto simp: store_change_graphs_def log_def Let_def split: option.splits)

lemma follows_build_pair:
  assumes "a \<noteq> []" "b \<noteq> []" "a \<noteq> b"
  shows "follows env s (build_pair env c p a b s)"
proof -
  define info where "info = \<lparr>repo_name = r_name (repo c), repo_path = r_path (repo c),
      repo_url = r_url (repo c), commit_hash = hash c, old_method = fst p, new_method = snd p\<rparr>"
  define s1 where "s1 = s\<lparr>events := events s @ [BuildCall a b info]\<rparr>"
  show ?thesis
  proof (cases "build_from_files env a b info")
    case (Inl e)
    define m where "m = UnableToBuild (r_path (repo c)) (hash c)
        (full_name (heap s ! fst p)) (lineno (ast (heap s ! fst p)))"
    have r: "build_pair env c p a b s = (None, log ERROR m s1)"
      using Inl by (simp add: build_pair_def Let_def info_def s1_def m_def)
    show ?thesis
      unfolding r
      by (rule followsI[where evs = "[BuildCall a b info, Log ERROR m]" and arts = "[]"])
        (use Inl assms in \<open>simp_all add: log_def s1_def\<close>)
  next
    case (Inr cg)
    define s2 where "s2 = s1\<lparr>change_graphs := change_graphs s1 @ [cg]\<rparr>"
    show ?thesis
    proof (cases "int (length (change_graphs s2)) \<ge> STORE_INTERVAL env")
      case False
      have r: "build_pair env c p a b s = (None, s2)"
        using Inr False by (simp add: build_pair_def Let_def info_def s1_def s2_def)
      show ?thesis
        unfolding r
        by (rule followsI[where evs = "[BuildCall a b info]" and arts = "[]"])
          (use Inr False assms in \<open>simp_all add: s1_def s2_def\<close>)
    next
      case True
      obtain out s3 where st: "store_change_graphs env (change_graphs s2) s2 = (out, s3)"
        by (cases "store_change_graphs env (change_graphs s2) s2")
      note sc = store_change_graphs_cases[OF st]
      show ?thesis
      proof (cases out)
        case None
        have r: "build_pair env c p a b s = (None, s3\<lparr>change_graphs := []\<rparr>)"
          using Inr True st None
          by (simp add: build_pair_def Let_def info_def s1_def s2_def)
        show ?thesis
          unfolding r
          by (rule followsI[where evs = "[BuildCall a b info, Log INFO StoringGraphs,
                Log INFO StoringFinished]" and arts = "[change_graphs s @ [cg]]"])
            (use Inr True assms sc None in \<open>simp_all add: s1_def s2_def\<close>)
      next
        case (Some e)
        have r: "build_pair env c p a b s = (Some e, s3)"
          using Inr True st Some
          by (simp add: build_pair_def Let_def info_def s1_def s2_def)
        show ?thesis
          unfolding r
          by (rule followsI[where evs = "[BuildCall a b info, Log INFO StoringGraphs]"
                and arts = "[]"])
            (use Inr True assms sc Some in \<open>simp_all add: s1_def s2_def\<close>)
      qed
    qed
  qed
qed

lemma follows_process_pair: "follows env s (process_pair env c p s)"
proof -
  obtain a s1 where g1: "get_source (heap s ! fst p) s = (a, s1)"
    by (cases "get_source (heap s ! fst p) s")
  obtain b s2 where g2: "get_source (heap s1 ! snd p) s1 = (b, s2)"
    by (cases "get_source (heap s1 ! snd p) s1")
  have f2: "follows env s (None, s2)"
    using follows_trans[OF follows_get_source[OF g1] follows_get_source[OF g2]] .
  show ?thesis
  proof (cases "\<not> (truthy a \<and> truthy b) \<or> a = b")
    case True
    then have "process_pair env c p s = (None, s2)"
      using g1 g2 by (simp add: process_pair_def)
    then show ?thesis using f2 by simp
  next
    case False
    then have r: "process_pair env c p s = build_pair env c p (the a) (the b) s2"
      using g1 g2 by (simp add: process_pair_def)
    have "the a \<noteq> []" "the b \<noteq> []" "the a \<noteq> the b"
      using False by (auto simp: truthy_def split: option.splits)
    then have "follows env s2 (build_pair env c p (the a) (the b) s2)"
      by (rule follows_build_pair)
    then show ?thesis
      unfolding r by (rule follows_trans[OF f2])
  qed
qed

lemma follows_process_pairs: "follows env s (process_pairs env c ps s)"
proof (induction ps arbitrary: s)
  case Nil
  show ?case by (simp add: follows_refl)
next
  case (Cons p ps)
  obtain out s' where pp: "process_pair env c p s = (out, s')"
    by (cases "process_pair env c p s")
  have f: "follows env s (out, s')"
    using follows_process_pair[of env s c p] by (simp add: pp)
  show ?case
  proof (cases out)
    case None
    then show ?thesis
      using follows_trans[OF _ Cons.IH[of s']] f by (simp add: pp)
  next
    case (Some e)
    then show ?thesis using f by (simp add: pp)
  qed
qed

lemma follows_process_mod: "follows env s (process_mod env c m s)"
proof (cases "mtype m = MODIFY \<and> path_endswith (old_path m) ''.py'' = Inr True
    \<and> path_endswith (new_path m) ''.py'' = Inr True")
  case False
  then have "snd (process_mod env c m s) = s"
    by (auto simp: process_mod_def split: sum.splits)
  then have "process_mod env c m s = (fst (process_mod env c m s), s)"
    by (metis prod.collapse)
  moreover have "follows env s (out, s)" for out
    by (rule followsI[where evs = "[]" and arts = "[]"]) simp_all
  ultimately show ?thesis by metis
next
  case True
  obtain olds s1 where e1: "extract_methods env (old_path m) (old_src m) s = (olds, s1)"
    by (cases "extract_methods env (old_path m) (old_src m) s")
  obtain news s2 where e2: "extract_methods env (new_path m) (new_src m) s1 = (news, s2)"
    by (cases "extract_methods env (new_path m) (new_src m) s1")
  have r: "process_mod env c m s
      = process_pairs env c (get_methods_mapping (heap s2) olds news) s2"
    using True e1 e2 by (simp add: process_mod_def)
  have "follows env s (None, s2)"
    using follows_trans[OF follows_extract_methods[OF e1] follows_extract_methods[OF e2]] .
  then show ?thesis
    unfolding r by (rule follows_trans[OF _ follows_process_pairs])
qed

lemma follows_process_mods: "follows env s (process_mods env c ms s)"
proof (induction ms arbitrary: s)
  case Nil
  show ?case by (simp add: follows_refl)
next
  case (Cons m ms)
  obtain out s' where pm: "process_mod env c m s = (out, s')"
    by (cases "process_mod env c m s")
  have f: "follows env s (out, s')"
    using follows_process_mod[of env s c m] by (simp add: pm)
  show ?case
  proof (cases out)
    case None
    then show ?thesis
      using follows_trans[OF _ Cons.IH[of s']] f by (simp add: pm)
  next
    case (Some e)
    then show ?thesis using f by (simp add: pm)
  qed
qed

lemma task_summary:
  assumes "get_commit_change_graphs env c s = (out, s')"
  shows "\<exists>evs arts.
     events s' = events s @ evs \<and>
     storage s' = storage s @ arts
        @ (if out = None \<and> change_graphs s' \<noteq> [] then [change_graphs s'] else []) \<and>
     list_all call_ok evs \<and>
     concat arts @ change_graphs s' = built env evs \<and>
     (0 < STORE_INTERVAL env \<longrightarrow>
        list_all (\<lambda>a. int (length a) = STORE_INTERVAL env) arts \<and>
        (out = None \<longrightarrow> int (length (change_graphs s')) < STORE_INTERVAL env))"
proof -
  define l0 where "l0 = Log INFO (LookingAtCommit (hash c) (replace_newlines (msg c)))"
  define s0 where "s0 = log INFO (LookingAtCommit (hash c) (replace_newlines (msg c)))
      (s\<lparr>change_graphs := []\<rparr>)"
  have s0: "events s0 = events s @ [l0]" "storage s0 = storage s" "change_graphs s0 = []"
    by (simp_all add: s0_def l0_def log_def)
  obtain o1 s1 where pm: "process_mods env c (modifications c) s0 = (o1, s1)"
    by (cases "process_mods env c (modifications c) s0")
  from follows_process_mods[of env s0 c "modifications c"] obtain evs arts where
    e: "events s1 = events s @ l0 # evs" and a: "storage s1 = storage s @ arts"
    and g: "concat arts @ change_graphs s1 = built env evs"
    and k: "list_all call_ok evs"
    and b: "0 < STORE_INTERVAL env \<longrightarrow>
        list_all (\<lambda>a. int (length a) = STORE_INTERVAL env) arts \<and>
        (o1 = None \<longrightarrow> int (length (change_graphs s1)) < STORE_INTERVAL env)"
    unfolding follows_def by (auto simp: pm s0)
  have bl: "built env (l0 # evs) = built env evs"
    by (simp add: l0_def)
  have task: "get_commit_change_graphs env c s
      = (case o1 of Some e \<Rightarrow> (Some e, s1)
         | None \<Rightarrow> if change_graphs s1 \<noteq> [] then store_change_graphs env (change_graphs s1) s1
                   else (None, s1))"
    using pm by (simp add: get_commit_change_graphs_def Let_def s0_def[symmetric])
  consider (raised) e1 where "o1 = Some e1"
    | (idle) "o1 = None" "change_graphs s1 = []"
    | (flush) "o1 = None" "change_graphs s1 \<noteq> []"
    by (cases o1) auto
  then show ?thesis
  proof cases
    case raised
    then have "out = Some e1" "s' = s1" using task assms by simp_all
    then show ?thesis
      using e a g k b raised
      by (intro exI[of _ "l0 # evs"] exI[of _ arts]) (simp add: bl l0_def)
  next
    case idle
    then have "out = None" "s' = s1" using task assms by simp_all
    then show ?thesis
      using e a g k b idle
      by (intro exI[of _ "l0 # evs"] exI[of _ arts]) (simp add: bl l0_def)
  next
    case flush
    then have st: "store_change_graphs env (change_graphs s1) s1 = (out, s')"
      using task assms by simp
    note sc = store_change_graphs_cases[OF st]
    show ?thesis
    proof (cases out)
      case None
      then show ?thesis
        using e a g k b flush sc
        by (intro exI[of _ "l0 # evs @ [Log INFO StoringGraphs, Log INFO StoringFinished]"]
            exI[of _ arts]) (simp add: bl l0_def built_append)
    next
      case (Some e2)
      then show ?thesis
        using e a g k b flush sc
        by (intro exI[of _ "l0 # evs @ [Log INFO StoringGraphs]"] exI[of _ arts])
          (simp add: bl l0_def built_append)
    qed
  qed
qed

lemma length_concat_batches:
  "list_all (\<lambda>a. length a = n) arts \<Longrightarrow> length (concat arts) = n * length arts"
  by (induction arts) simp_all

lemma ceil_div_batches:
  fixes n :: nat
  assumes "0 < n" "b < n"
  shows "(n * k + b + n - 1) div n = k + (if b = 0 then 0 else 1)"
proof (cases "b = 0")
  case True
  have "n * k + b + n - 1 = n * k + (n - 1)"
    using assms(1) True by simp
  moreover have "(n * k + (n - 1)) div n = k + (n - 1) div n"
    using assms(1) by (intro div_mult_self4) simp
  moreover have "(n - 1) div n = 0"
    using assms(1) by simp
  ultimately show ?thesis using True by simp
next
  case False
  have "n * k + b + n - 1 = n * (k + 1) + (b - 1)"
    using False by (simp add: algebra_simps)
  moreover have "(n * (k + 1) + (b - 1)) div n = (k + 1) + (b - 1) div n"
    using assms(1) by (intro div_mult_self4) simp
  moreover have "(b - 1) div n = 0"
    using assms(2) by simp
  ultimately show ?thesis using False by simp
qed

lemma batch_count:
  fixes n :: nat
  assumes "list_all (\<lambda>a. length a = n) arts" "0 < n" "length buf < n"
  shows "length (arts @ (if buf \<noteq> [] then [buf] else []))
           = (length (concat arts @ buf) + n - 1) div n"
    and "concat arts @ buf \<noteq> [] \<Longrightarrow>
         length (last (arts @ (if buf \<noteq> [] then [buf] else [])))
           = (if length (concat arts @ buf) mod n = 0 then n
              else length (concat arts @ buf) mod n)"
proof -
  have lc: "length (concat arts) = n * length arts"
    using assms(1) by (rule length_concat_batches)
  show "length (arts @ (if buf \<noteq> [] then [buf] else []))
           = (length (concat arts @ buf) + n - 1) div n"
    using ceil_div_batches[OF assms(2,3), of "length arts"] lc by auto
  assume ne: "concat arts @ buf \<noteq> []"
  show "length (last (arts @ (if buf \<noteq> [] then [buf] else [])))
           = (if length (concat arts @ buf) mod n = 0 then n
              else length (concat arts @ buf) mod n)"
  proof (cases "buf = []")
    case True
    then have "arts \<noteq> []" using ne by auto
    then have "last arts \<in> set arts" by simp
    then have "length (last arts) = n"
      using assms(1) by (simp add: list_all_iff)
    then show ?thesis using True lc by simp
  next
    case False
    then show ?thesis using lc assms(3) by simp
  qed
qed

lemmas demo_defs = demo_old_def demo_new_def def_node_def demo_module_def demo_env_def
  demo_modification_def demo_commit_def empty_state_def small_commit_def

lemmas run_defs = get_commit_change_graphs_def process_mod_def process_pair_def build_pair_def
  extract_methods_def visit_Module_def get_methods_mapping_def get_source_def
  get_source_segment_def splitlines_no_ff_def py_index_def py_slice_def slice_bound_def
  store_change_graphs_def log_def path_endswith_def endswith_def Method_init_def strip_def
  isspace_def truthy_def replace_newlines_def Let_def

lemma task_summary_new:
  "\<exists>arts.
     new_storage s (snd (get_commit_change_graphs env c s))
       = arts @ (if fst (get_commit_change_graphs env c s) = None
                    \<and> change_graphs (snd (get_commit_change_graphs env c s)) \<noteq> []
                 then [change_graphs (snd (get_commit_change_graphs env c s))] else []) \<and>
     list_all call_ok (new_events s (snd (get_commit_change_graphs env c s))) \<and>
     concat arts @ change_graphs (snd (get_commit_change_graphs env c s))
       = built env (new_events s (snd (get_commit_change_graphs env c s))) \<and>
     (0 < STORE_INTERVAL env \<longrightarrow>
        list_all (\<lambda>a. int (length a) = STORE_INTERVAL env) arts \<and>
        (fst (get_commit_change_graphs env c s) = None \<longrightarrow>
           int (length (change_graphs (snd (get_commit_change_graphs env c s))))
             < STORE_INTERVAL env))"
proof -
  obtain out s' where r: "get_commit_change_graphs env c s = (out, s')"
    by (cases "get_commit_change_graphs env c s")
  from task_summary[OF r] obtain evs arts where
    "events s' = events s @ evs"
    "storage s' = storage s @ arts
        @ (if out = None \<and> change_graphs s' \<noteq> [] then [change_graphs s'] else [])"
    "list_all call_ok evs"
    "concat arts @ change_graphs s' = built env evs"
    "0 < STORE_INTERVAL env \<longrightarrow>
        list_all (\<lambda>a. int (length a) = STORE_INTERVAL env) arts \<and>
        (out = None \<longrightarrow> int (length (change_graphs s')) < STORE_INTERVAL env)"
    by blast
  then show ?thesis
    unfolding r by (intro exI[of _ arts]) (simp add: new_events_def new_storage_def)
qed

text \<open>
  Claim C2, as amended. The list \<^verbatim>\<open>change_graphs\<close> is local to one task and is flushed at
  the end of every task, so the count holds for one commit-task, not for the lifetime of
  a worker: when the threshold \<open>N\<close> is positive and the task returns, it has stored
  \<open>\<lceil>K/N\<rceil>\<close> files for the \<open>K\<close> graphs that the builder returned during the task, and the
  last file holds \<open>K mod N\<close> graphs, or \<open>N\<close> when that is 0.
\<close>

theorem task_stores_ceiling_of_batches:
  assumes "0 < STORE_INTERVAL env" and "fst (get_commit_change_graphs env c s) = None"
  shows "length (new_storage s (snd (get_commit_change_graphs env c s)))
        = (length (built env (new_events s (snd (get_commit_change_graphs env c s))))
             + nat (STORE_INTERVAL env) - 1) div nat (STORE_INTERVAL env)
    \<and> (built env (new_events s (snd (get_commit_change_graphs env c s))) \<noteq> [] \<longrightarrow>
         length (last (new_storage s (snd (get_commit_change_graphs env c s))))
           = (if length (built env (new_events s (snd (get_commit_change_graphs env c s))))
                   mod nat (STORE_INTERVAL env) = 0
              then nat (STORE_INTERVAL env)
              else length (built env (new_events s (snd (get_commit_change_graphs env c s))))
                     mod nat (STORE_INTERVAL env)))"
proof -
  define r where "r = get_commit_change_graphs env c s"
  define n where "n = nat (STORE_INTERVAL env)"
  define buf where "buf = change_graphs (snd r)"
  have ret: "fst r = None"
    unfolding r_def using assms(2) .
  from task_summary_new[of s env c] obtain arts where
    st: "new_storage s (snd r) = arts @ (if buf \<noteq> [] then [buf] else [])"
    and g: "concat arts @ buf = built env (new_events s (snd r))"
    and la: "list_all (\<lambda>a. int (length a) = STORE_INTERVAL env) arts"
    and lb: "int (length buf) < STORE_INTERVAL env"
    using assms(1) ret unfolding r_def[symmetric] buf_def[symmetric] by auto
  have n: "0 < n" using assms(1) by (simp add: n_def)
  have la': "list_all (\<lambda>a. length a = n) arts"
    using la by (auto simp: list_all_iff n_def)
  have lb': "length buf < n"
    using lb by (simp add: n_def)
  note bc = batch_count[OF la' n lb']
  show ?thesis
    unfolding r_def[symmetric] n_def[symmetric]
    using bc st g by simp
qed

theorem task_stores_ceiling_of_batches_witness:
  "0 < STORE_INTERVAL demo_env
   \<and> fst (get_commit_change_graphs demo_env demo_commit empty_state) = None
   \<and> length (built demo_env
       (new_events empty_state (snd (get_commit_change_graphs demo_env demo_commit empty_state))))
     = 2
   \<and> length (new_storage empty_state
       (snd (get_commit_change_graphs demo_env demo_commit empty_state))) = 1
   \<and> length (last (new_storage empty_state
       (snd (get_commit_change_graphs demo_env demo_commit empty_state)))) = 2"
  using task_stores_ceiling_of_batches[of demo_env demo_commit empty_state]
  by (simp add: demo_defs run_defs new_events_def new_storage_def)

text \<open>
  The count does not hold for the lifetime of a worker. A worker that is handed
  \<open>small_commit\<close> twice, with threshold 2, gets two graphs from the builder and stores
  two files of one graph each, where \<open>\<lceil>2/2\<rceil>\<close> is one file of two graphs.
\<close>

lemma small_commit_first_run:
  "get_commit_change_graphs demo_env small_commit empty_state = (None, after_small_commit)"
  by (simp add: demo_defs run_defs after_small_commit_def)

lemma small_commit_second_run:
  "map length (storage (snd (get_commit_change_graphs demo_env small_commit after_small_commit)))
     = [1, 1]
   \<and> length (built demo_env
        (events (snd (get_commit_change_graphs demo_env small_commit after_small_commit)))) = 2
   \<and> fst (get_commit_change_graphs demo_env small_commit after_small_commit) = None"
  by (simp add: demo_defs run_defs after_small_commit_def)

theorem worker_lifetime_counterexample:
  "length (built demo_env
       (events (worker demo_env [[small_commit], [small_commit]] empty_state))) = 2
   \<and> STORE_INTERVAL demo_env = 2
   \<and> map length (storage (worker demo_env [[small_commit], [small_commit]] empty_state))
       = [1, 1]
   \<and> length (storage (worker demo_env [[small_commit], [small_commit]] empty_state))
      \<noteq> (length (built demo_env
            (events (worker demo_env [[small_commit], [small_commit]] empty_state)))
          + nat (STORE_INTERVAL demo_env) - 1) div nat (STORE_INTERVAL demo_env)"
proof -
  obtain s2 where r2: "get_commit_change_graphs demo_env small_commit after_small_commit
      = (None, s2)"
    using small_commit_second_run by (metis prod.collapse)
  have w: "worker demo_env [[small_commit], [small_commit]] empty_state = s2"
    by (simp add: small_commit_first_run r2)
  have n: "STORE_INTERVAL demo_env = 2"
    by (simp add: demo_env_def)
  have a: "map length (storage s2) = [1, 1]" and b: "length (built demo_env (events s2)) = 2"
    using small_commit_second_run by (simp_all add: r2)
  have c: "length (storage s2) = length [1::nat, 1]"
    unfolding a[symmetric] by simp
  show ?thesis
    unfolding w n using a b c by simp
qed

text \<open>
  Claim C3. Every call of the builder made during a task is on two non-empty texts that
  differ; and a pair whose two extracted texts are equal leaves the loop body after the
  two \<^verbatim>\<open>get_source\<close> calls, with no builder call and no graph.
\<close>

theorem builder_called_only_on_changed_text:
  "list_all call_ok (new_events s (snd (get_commit_change_graphs env c s)))
   \<and> (fst (get_source (heap s ! fst p) s) = fst (get_source (heap s ! snd p) s) \<longrightarrow>
        process_pair env c p s
          = (None, snd (get_source (heap s ! snd p) (snd (get_source (heap s ! fst p) s)))))"
proof -
  have "list_all call_ok (new_events s (snd (get_commit_change_graphs env c s)))"
    using task_summary_new[of s env c] by blast
  moreover have "fst (get_source (heap s ! fst p) s) = fst (get_source (heap s ! snd p) s) \<longrightarrow>
        process_pair env c p s
          = (None, snd (get_source (heap s ! snd p) (snd (get_source (heap s ! fst p) s))))"
    by (auto simp: process_pair_def get_source_def log_def split: sum.splits prod.splits)
  ultimately show ?thesis by simp
qed

theorem builder_called_only_on_changed_text_witness:
  "fst (get_source (heap after_small_commit ! fst (0, 0)) after_small_commit)
     = fst (get_source (heap after_small_commit ! snd (0, 0)) after_small_commit)
   \<and> process_pair demo_env small_commit (0, 0) after_small_commit = (None, after_small_commit)
   \<and> list_all call_ok (new_events empty_state
         (snd (get_commit_change_graphs demo_env small_commit empty_state)))"
  using builder_called_only_on_changed_text[of empty_state demo_env small_commit]
    builder_called_only_on_changed_text[of after_small_commit demo_env small_commit "(0, 0)"]
  by (simp add: demo_defs run_defs after_small_commit_def)

section \<open>Failures of the builder and of the parser\<close>

lemma process_pairs_append:
  "process_pairs env c (xs @ ys) s
     = (case process_pairs env c xs s of
          (Some e, s') \<Rightarrow> (Some e, s')
        | (None, s') \<Rightarrow> process_pairs env c ys s')"
  by (induction xs arbitrary: s) (auto split: prod.splits option.splits)

lemma process_mods_append:
  "process_mods env c (xs @ ys) s
     = (case process_mods env c xs s of
          (Some e, s') \<Rightarrow> (Some e, s')
        | (None, s') \<Rightarrow> process_mods env c ys s')"
  by (induction xs arbitrary: s) (auto split: prod.splits option.splits)

lemma task_as_pieces:
  "get_commit_change_graphs env c s
     = task_end env (process_mods env c (modifications c) (task_start c s))"
  by (simp add: get_commit_change_graphs_def task_end_def task_start_def Let_def)

lemma process_mod_as_pairs:
  assumes "mtype m = MODIFY" "path_endswith (old_path m) ''.py'' = Inr True"
    "path_endswith (new_path m) ''.py'' = Inr True"
  shows "process_mod env c m s
     = process_pairs env c (fst (matched_pairs env m s)) (snd (matched_pairs env m s))"
  using assms by (simp add: process_mod_def matched_pairs_def split: prod.splits)

text \<open>
  Claim C4. When the builder raises for a pair that reached it, the loop over the pairs
  goes on with the remaining pairs from a state that differs from the one before the pair
  only by the record of the call and an error line naming the repository path, the commit
  hash, the qualified name and the line of the old Method: nothing is raised, the pending
  graphs and the stored files are untouched. When this happens in the task of a commit,
  at any pair of any of its modifications, the task is the run of the remaining pairs of
  that modification from that state, then of the remaining modifications of the commit,
  then the flush of the remainder. And whenever a task returns, the files it stored hold
  exactly the graphs that the builder returned during the task, in call order.
\<close>

theorem builder_failure_is_logged_and_skipped:
  assumes "fst (get_source (heap s ! fst p) s) = Some a"
    and "fst (get_source (heap s ! snd p) s) = Some b"
    and "a \<noteq> []" "b \<noteq> []" "a \<noteq> b"
    and "build_from_files env a b
           \<lparr>repo_name = r_name (repo c), repo_path = r_path (repo c),
            repo_url = r_url (repo c), commit_hash = hash c,
            old_method = fst p, new_method = snd p\<rparr> = Inl e"
  shows "process_pairs env c (p # ps) s
      = process_pairs env c ps
          (s\<lparr>events := events s @
             [BuildCall a b \<lparr>repo_name = r_name (repo c), repo_path = r_path (repo c),
                repo_url = r_url (repo c), commit_hash = hash c,
                old_method = fst p, new_method = snd p\<rparr>,
              Log ERROR (UnableToBuild (r_path (repo c)) (hash c)
                (full_name (heap s ! fst p)) (lineno (ast (heap s ! fst p))))]\<rparr>)
    \<and> (modifications c = ms1 @ m # ms2
         \<and> process_mods env c ms1 (task_start c t) = (None, s1)
         \<and> mtype m = MODIFY \<and> path_endswith (old_path m) ''.py'' = Inr True
         \<and> path_endswith (new_path m) ''.py'' = Inr True
         \<and> matched_pairs env m s1 = (d1 @ p # ps, s3)
         \<and> process_pairs env c d1 s3 = (None, s) \<longrightarrow>
       get_commit_change_graphs env c t
         = task_end env
             (case process_pairs env c ps
                (s\<lparr>events := events s @
                   [BuildCall a b \<lparr>repo_name = r_name (repo c), repo_path = r_path (repo c),
                      repo_url = r_url (repo c), commit_hash = hash c,
                      old_method = fst p, new_method = snd p\<rparr>,
                    Log ERROR (UnableToBuild (r_path (repo c)) (hash c)
                      (full_name (heap s ! fst p)) (lineno (ast (heap s ! fst p))))]\<rparr>) of
                (Some e', u) \<Rightarrow> (Some e', u)
              | (None, u) \<Rightarrow> process_mods env c ms2 u))
    \<and> (fst (get_commit_change_graphs env c t) = None \<longrightarrow>
         concat (new_storage t (snd (get_commit_change_graphs env c t)))
           = built env (new_events t (snd (get_commit_change_graphs env c t))))"
proof -
  define s' where "s' = s\<lparr>events := events s @
             [BuildCall a b \<lparr>repo_name = r_name (repo c), repo_path = r_path (repo c),
                repo_url = r_url (repo c), commit_hash = hash c,
                old_method = fst p, new_method = snd p\<rparr>,
              Log ERROR (UnableToBuild (r_path (repo c)) (hash c)
                (full_name (heap s ! fst p)) (lineno (ast (heap s ! fst p))))]\<rparr>"
  have g1: "get_source (heap s ! fst p) s = (Some a, s)"
    using assms(1) by (auto simp: get_source_def split: sum.splits)
  have g2: "get_source (heap s ! snd p) s = (Some b, s)"
    using assms(2) by (auto simp: get_source_def split: sum.splits)
  have "process_pair env c p s = build_pair env c p a b s"
    using g1 g2 assms(3-5) by (simp add: process_pair_def truthy_def)
  also have "\<dots> = (None, s')"
    using assms(6) by (simp add: build_pair_def Let_def log_def s'_def)
  finally have step: "process_pairs env c (p # ps) s = process_pairs env c ps s'"
    by simp
  have task: "get_commit_change_graphs env c t
         = task_end env
             (case process_pairs env c ps s' of
                (Some e', u) \<Rightarrow> (Some e', u)
              | (None, u) \<Rightarrow> process_mods env c ms2 u)"
    if mods: "modifications c = ms1 @ m # ms2"
      and before: "process_mods env c ms1 (task_start c t) = (None, s1)"
      and kind: "mtype m = MODIFY" "path_endswith (old_path m) ''.py'' = Inr True"
        "path_endswith (new_path m) ''.py'' = Inr True"
      and pairs: "matched_pairs env m s1 = (d1 @ p # ps, s3)"
      and first: "process_pairs env c d1 s3 = (None, s)"
  proof -
    have "process_mod env c m s1 = process_pairs env c (d1 @ p # ps) s3"
      using process_mod_as_pairs[OF kind, of env c s1] by (simp add: pairs)
    also have "\<dots> = process_pairs env c (p # ps) s"
      by (simp only: process_pairs_append first) simp
    finally have pm: "process_mod env c m s1 = process_pairs env c ps s'"
      by (simp only: step)
    have "process_mods env c (modifications c) (task_start c t)
        = process_mods env c (m # ms2) s1"
      unfolding mods by (simp only: process_mods_append before) simp
    also have "\<dots> = (case process_pairs env c ps s' of
                (Some e', u) \<Rightarrow> (Some e', u)
              | (None, u) \<Rightarrow> process_mods env c ms2 u)"
      by (simp only: process_mods.simps pm)
    finally show ?thesis
      by (simp only: task_as_pieces)
  qed
  have stored: "fst (get_commit_change_graphs env c t) = None \<longrightarrow>
         concat (new_storage t (snd (get_commit_change_graphs env c t)))
           = built env (new_events t (snd (get_commit_change_graphs env c t)))"
    using task_summary_new[of t env c] by auto
  show ?thesis
    unfolding s'_def[symmetric] using step task stored by blast
qed

theorem builder_failure_is_logged_and_skipped_witness:
  "fst (get_source (heap two_mod_before_g ! fst (1, 4)) two_mod_before_g) = Some ''def g(): 1''
   \<and> fst (get_source (heap two_mod_before_g ! snd (1, 4)) two_mod_before_g)
       = Some ''def g(): 2''
   \<and> build_from_files demo_env ''def g(): 1'' ''def g(): 2''
        \<lparr>repo_name = r_name (repo two_mod_commit), repo_path = r_path (repo two_mod_commit),
         repo_url = r_url (repo two_mod_commit), commit_hash = hash two_mod_commit,
         old_method = fst (1, 4), new_method = snd (1, 4)\<rparr> = Inl BuilderError
   \<and> modifications two_mod_commit = [] @ demo_modification # tl (modifications two_mod_commit)
   \<and> matched_pairs demo_env demo_modification (task_start two_mod_commit empty_state)
       = ([(0, 3)] @ (1, 4) # [(2, 5)], two_mod_extracted)
   \<and> process_pairs demo_env two_mod_commit [(0, 3)] two_mod_extracted
       = (None, two_mod_before_g)
   \<and> get_commit_change_graphs demo_env two_mod_commit empty_state
       = task_end demo_env
           (case process_pairs demo_env two_mod_commit [(2, 5)]
              (two_mod_before_g\<lparr>events := events two_mod_before_g @
                 [BuildCall ''def g(): 1'' ''def g(): 2''
                    \<lparr>repo_name = ''r'', repo_path = ''/repos/r'', repo_url = ''u'',
                     commit_hash = ''c3'', old_method = 1, new_method = 4\<rparr>,
                  Log ERROR (UnableToBuild ''/repos/r'' ''c3'' ''g'' 2)]\<rparr>) of
              (Some e, u) \<Rightarrow> (Some e, u)
            | (None, u) \<Rightarrow>
                process_mods demo_env two_mod_commit (tl (modifications two_mod_commit)) u)
   \<and> fst (get_commit_change_graphs demo_env two_mod_commit empty_state) = None
   \<and> storage (snd (get_commit_change_graphs demo_env two_mod_commit empty_state))
     = [[(''def f(): 1'', ''def f(): 2''), (''def h(): 1'', ''def h(): 2'')],
        [(''def f(): 1'', ''def f(): 2'')]]
   \<and> Log ERROR (UnableToBuild ''/repos/r'' ''c3'' ''g'' 2)
       \<in> set (events (snd (get_commit_change_graphs demo_env two_mod_commit empty_state)))"
proof -
  note defs = two_mod_before_g_def two_mod_extracted_def two_mod_commit_def matched_pairs_def
    task_start_def demo_defs run_defs
  have h: "fst (get_source (heap two_mod_before_g ! fst (1, 4)) two_mod_before_g)
        = Some ''def g(): 1''"
      "fst (get_source (heap two_mod_before_g ! snd (1, 4)) two_mod_before_g)
        = Some ''def g(): 2''"
      "build_from_files demo_env ''def g(): 1'' ''def g(): 2''
        \<lparr>repo_name = r_name (repo two_mod_commit), repo_path = r_path (repo two_mod_commit),
         repo_url = r_url (repo two_mod_commit), commit_hash = hash two_mod_commit,
         old_method = fst (1, 4), new_method = snd (1, 4)\<rparr> = Inl BuilderError"
    by (simp_all add: defs)
  have ne: "''def g(): 1'' \<noteq> []" "''def g(): 2'' \<noteq> []"
      "''def g(): 1'' \<noteq> ''def g(): 2''"
    by simp_all
  have nm: "full_name (heap two_mod_before_g ! 1) = ''g''"
      "lineno (ast (heap two_mod_before_g ! 1)) = 2"
    by (simp_all add: defs)
  have c: "r_name (repo two_mod_commit) = ''r''" "r_path (repo two_mod_commit) = ''/repos/r''"
      "r_url (repo two_mod_commit) = ''u''" "hash two_mod_commit = ''c3''"
    by (simp_all add: two_mod_commit_def)
  have mods: "modifications two_mod_commit
      = [] @ demo_modification # tl (modifications two_mod_commit)"
    by (simp add: two_mod_commit_def)
  have before: "process_mods demo_env two_mod_commit [] (task_start two_mod_commit empty_state)
      = (None, task_start two_mod_commit empty_state)"
    by simp
  have kind: "mtype demo_modification = MODIFY"
      "path_endswith (old_path demo_modification) ''.py'' = Inr True"
      "path_endswith (new_path demo_modification) ''.py'' = Inr True"
    by (simp_all add: demo_modification_def path_endswith_def endswith_def)
  have pairs: "matched_pairs demo_env demo_modification (task_start two_mod_commit empty_state)
       = ([(0, 3)] @ (1, 4) # [(2, 5)], two_mod_extracted)"
    by (simp add: two_mod_extracted_def)
      (simp add: two_mod_commit_def matched_pairs_def task_start_def demo_defs run_defs)
  have first: "process_pairs demo_env two_mod_commit [(0, 3)] two_mod_extracted
       = (None, two_mod_before_g)"
    by (simp add: two_mod_before_g_def)
      (simp add: two_mod_extracted_def two_mod_commit_def matched_pairs_def task_start_def
        demo_defs run_defs)
  note t = builder_failure_is_logged_and_skipped[OF h(1) h(2) ne h(3),
      of "[(2, 5)]" "[]" demo_modification "tl (modifications two_mod_commit)" empty_state
        "task_start two_mod_commit empty_state" "[(0, 3)]" two_mod_extracted,
      THEN conjunct2, THEN conjunct1, rule_format]
  have task: "get_commit_change_graphs demo_env two_mod_commit empty_state
       = task_end demo_env
           (case process_pairs demo_env two_mod_commit [(2, 5)]
              (two_mod_before_g\<lparr>events := events two_mod_before_g @
                 [BuildCall ''def g(): 1'' ''def g(): 2''
                    \<lparr>repo_name = ''r'', repo_path = ''/repos/r'', repo_url = ''u'',
                     commit_hash = ''c3'', old_method = 1, new_method = 4\<rparr>,
                  Log ERROR (UnableToBuild ''/repos/r'' ''c3'' ''g'' 2)]\<rparr>) of
              (Some e, u) \<Rightarrow> (Some e, u)
            | (None, u) \<Rightarrow>
                process_mods demo_env two_mod_commit (tl (modifications two_mod_commit)) u)"
    using t[OF conjI[OF mods conjI[OF before conjI[OF kind(1) conjI[OF kind(2)
          conjI[OF kind(3) conjI[OF pairs first]]]]]]]
    by (simp only: fst_conv snd_conv nm c)
  have run: "fst (get_commit_change_graphs demo_env two_mod_commit empty_state) = None"
      "storage (snd (get_commit_change_graphs demo_env two_mod_commit empty_state))
     = [[(''def f(): 1'', ''def f(): 2''), (''def h(): 1'', ''def h(): 2'')],
        [(''def f(): 1'', ''def f(): 2'')]]"
      "Log ERROR (UnableToBuild ''/repos/r'' ''c3'' ''g'' 2)
       \<in> set (events (snd (get_commit_change_graphs demo_env two_mod_commit empty_state)))"
    by (simp_all add: two_mod_commit_def demo_defs run_defs)
  show ?thesis
    using h mods pairs first task run by (intro conjI)
qed

lemma mapping_outer_no_new: "mapping_outer h olds [] d = d"
  by (induction olds arbitrary: d) simp_all

text \<open>
  Claim C7. When the parser raises on a text (or the text is absent), \<^verbatim>\<open>_extract_methods\<close>
  returns the empty list and adds one line at the informational level to the log, and
  nothing else changes. In the task, a modified \<^verbatim>\<open>.py\<close> file with such a text on its old or
  new side gives no pair: the other side is still extracted and the loop over the
  modifications goes on, with nothing raised.
\<close>

theorem parse_failure_gives_no_methods:
  assumes "parse_fails env source"
  shows "extract_methods env path source s
      = ([], log INFO UnableToCompile (s\<lparr>events := events s @ [ParseCall source]\<rparr>))
    \<and> (mtype m = MODIFY \<and> path_endswith (old_path m) ''.py'' = Inr True
         \<and> path_endswith (new_path m) ''.py'' = Inr True \<longrightarrow>
        (old_src m = source \<longrightarrow>
           process_mod env c m s
             = (None, snd (extract_methods env (new_path m) (new_src m)
                  (log INFO UnableToCompile (s\<lparr>events := events s @ [ParseCall source]\<rparr>)))))
        \<and> (new_src m = source \<longrightarrow>
           process_mod env c m s
             = (None, log INFO UnableToCompile
                  ((snd (extract_methods env (old_path m) (old_src m) s))
                     \<lparr>events := events (snd (extract_methods env (old_path m) (old_src m) s))
                        @ [ParseCall source]\<rparr>))))"
proof -
  have ex: "extract_methods env q source t
      = ([], log INFO UnableToCompile (t\<lparr>events := events t @ [ParseCall source]\<rparr>))"
    for q t
    using assms
    by (auto simp: extract_methods_def parse_fails_def Let_def split: option.splits sum.splits)
  have old: "process_mod env c m s
             = (None, snd (extract_methods env (new_path m) (new_src m)
                  (log INFO UnableToCompile (s\<lparr>events := events s @ [ParseCall source]\<rparr>))))"
    if "mtype m = MODIFY" "path_endswith (old_path m) ''.py'' = Inr True"
      "path_endswith (new_path m) ''.py'' = Inr True" "old_src m = source"
    using that
    by (simp add: process_mod_def ex get_methods_mapping_def split: prod.splits)
  have new: "process_mod env c m s
             = (None, log INFO UnableToCompile
                  ((snd (extract_methods env (old_path m) (old_src m) s))
                     \<lparr>events := events (snd (extract_methods env (old_path m) (old_src m) s))
                        @ [ParseCall source]\<rparr>))"
    if "mtype m = MODIFY" "path_endswith (old_path m) ''.py'' = Inr True"
      "path_endswith (new_path m) ''.py'' = Inr True" "new_src m = source"
    using that
    by (simp add: process_mod_def ex get_methods_mapping_def mapping_outer_no_new
        split: prod.splits)
  show ?thesis
    using ex old new by blast
qed

theorem parse_failure_gives_no_methods_witness:
  "parse_fails demo_env (Some ''def f(:'')
   \<and> extract_methods demo_env (Some ''a.py'') (Some ''def f(:'') empty_state
     = ([], \<lparr>heap = [], events = [ParseCall (Some ''def f(:''), Log INFO UnableToCompile],
             change_graphs = [], storage = []\<rparr>)
   \<and> fst (process_mod demo_env demo_commit (demo_modification\<lparr>old_src := Some ''def f(:''\<rparr>)
           empty_state) = None
   \<and> storage (snd (process_mod demo_env demo_commit
           (demo_modification\<lparr>old_src := Some ''def f(:''\<rparr>) empty_state)) = []"
  using parse_failure_gives_no_methods[of demo_env "Some ''def f(:''" "Some ''a.py''" empty_state
      "demo_modification\<lparr>old_src := Some ''def f(:''\<rparr>" demo_commit]
  by (simp add: demo_defs run_defs parse_fails_def)

end
